theory Spec2Isabelle
  imports Main "HOL-Library.Word"
begin

section \<open>The sharded buffer cache of the kernel (the final \<open>bio.c\<close>)\<close>

text \<open>
  The cache is a static array \<open>bcache.buf[NBUF]\<close> of \<open>struct buf\<close>, thirteen list heads
  \<open>bcache.lrus[NBUCKETS]\<close> (each a whole \<open>struct buf\<close> used as the sentinel of a circular
  doubly linked list through \<open>prev\<close>/\<open>next\<close>) and thirteen hash-chain roots
  \<open>bcache.elems[NBUCKETS]\<close> (singly linked through \<open>next_hash\<close>).

  A \<open>struct buf *\<close> is modelled as an optional address: \<open>None\<close> is the null pointer,
  \<open>Buf i\<close> is \<open>&bcache.buf[i]\<close> and \<open>Head i\<close> is \<open>&bcache.lrus[i]\<close>. A \<open>struct buf **\<close>
  (what \<open>find_ptr\<close> returns) is a slot: either \<open>&bcache.elems[i]\<close> or \<open>&a->next_hash\<close>.
  Every pointer write of the source is one update of the store, in the source's order, so
  that aliasing between the nodes involved is whatever the store says it is.
\<close>

type_synonym uint = "32 word"
type_synonym block = "8 word list"

datatype addr = Buf nat | Head nat
type_synonym ptr = "addr option"
datatype slot = Elems nat | NextHash addr

datatype error = Panic string | Fault | Sleeps | Diverges

text \<open>
  Modelled from the spec: \<open>sleeplock.h\<close>/\<open>sleeplock.c\<close> are not part of the sources. The
  content lock is mutually exclusive and records its holder; a thread that finds it taken
  is suspended (outcome \<open>Sleeps\<close> of a sequential run).
\<close>

record sleeplock =
  locked :: bool
  pid :: nat

text \<open>
  Modelled from the spec: \<open>buf.h\<close> is not part of the sources. The fields are the ones
  the code reads and writes; the reference count is an unsigned 32-bit counter
  (\<open>sint\<close> reads it as a signed one).
\<close>

record buf =
  valid :: bool
  dev :: uint
  blockno :: uint
  lock :: sleeplock
  refcnt :: uint
  prev :: ptr
  "next" :: ptr
  next_hash :: ptr
  data :: block

text \<open>
  The kernel state the cache works on: the three arrays of \<open>bcache\<close>, and the block device
  behind \<open>virtio_disk_rw\<close> with counters of the transfers made.
\<close>

record state =
  buf :: "nat \<Rightarrow> buf"
  lrus :: "nat \<Rightarrow> buf"
  elems :: "nat \<Rightarrow> ptr"
  disk :: "uint \<times> uint \<Rightarrow> block"
  disk_reads :: nat
  disk_writes :: nat

definition NBUCKETS :: nat where
  "NBUCKETS = 13"

definition bucket :: "uint \<Rightarrow> nat" where
  "bucket bn = unat (bn mod 13)"

fun obj :: "state \<Rightarrow> addr \<Rightarrow> buf" where
  "obj s (Buf i) = buf s i"
| "obj s (Head i) = lrus s i"

fun upd :: "state \<Rightarrow> addr \<Rightarrow> (buf \<Rightarrow> buf) \<Rightarrow> state" where
  "upd s (Buf i) f = s\<lparr>buf := (buf s)(i := f (buf s i))\<rparr>"
| "upd s (Head i) f = s\<lparr>lrus := (lrus s)(i := f (lrus s i))\<rparr>"

fun slot_get :: "state \<Rightarrow> slot \<Rightarrow> ptr" where
  "slot_get s (Elems i) = elems s i"
| "slot_get s (NextHash a) = next_hash (obj s a)"

fun slot_set :: "state \<Rightarrow> slot \<Rightarrow> ptr \<Rightarrow> state" where
  "slot_set s (Elems i) v = s\<lparr>elems := (elems s)(i := v)\<rparr>"
| "slot_set s (NextHash a) v = upd s a (\<lambda>x. x\<lparr>next_hash := v\<rparr>)"

fun then_do :: "error + 'a \<Rightarrow> ('a \<Rightarrow> error + 'b) \<Rightarrow> error + 'b" where
  "then_do (Inl e) f = Inl e"
| "then_do (Inr x) f = f x"

subsection \<open>The hash chains\<close>

text \<open>
  \<open>find_ptr\<close>: the \<open>while\<close> loop follows \<open>next_hash\<close> until the slot holds null or a buffer
  of the requested identity. On a cyclic chain without a match the loop never ends: the
  value \<open>None\<close>.
\<close>

partial_function (option) find_loop :: "state \<Rightarrow> uint \<Rightarrow> uint \<Rightarrow> slot \<Rightarrow> slot option" where
  "find_loop s d bn p =
     (case slot_get s p of
        None \<Rightarrow> Some p
      | Some a \<Rightarrow>
          if blockno (obj s a) \<noteq> bn \<or> dev (obj s a) \<noteq> d
          then find_loop s d bn (NextHash a)
          else Some p)"

definition find_ptr :: "state \<Rightarrow> uint \<Rightarrow> uint \<Rightarrow> slot option" where
  "find_ptr s d bn = find_loop s d bn (Elems (bucket bn))"

definition btable_insert :: "state \<Rightarrow> addr \<Rightarrow> error + state" where
  "btable_insert s b =
     (case find_ptr s (dev (obj s b)) (blockno (obj s b)) of
        None \<Rightarrow> Inl Diverges
      | Some p \<Rightarrow> Inr (upd (slot_set s p (Some b)) b (\<lambda>x. x\<lparr>next_hash := None\<rparr>)))"

definition btable_remove :: "state \<Rightarrow> addr \<Rightarrow> error + state" where
  "btable_remove s b =
     (case find_ptr s (dev (obj s b)) (blockno (obj s b)) of
        None \<Rightarrow> Inl Diverges
      | Some p \<Rightarrow>
          (case slot_get s p of
             None \<Rightarrow> Inr s
           | Some a \<Rightarrow> Inr (slot_set s p (next_hash (obj s a)))))"

definition btable_find :: "state \<Rightarrow> uint \<Rightarrow> uint \<Rightarrow> error + ptr" where
  "btable_find s d bn =
     (case find_ptr s d bn of
        None \<Rightarrow> Inl Diverges
      | Some p \<Rightarrow> Inr (slot_get s p))"

subsection \<open>The LRU lists\<close>

text \<open>
  Each line of \<open>lru_remove\<close> and \<open>lru_add\<close> reads the store left by the line before it.
  Dereferencing a null \<open>prev\<close> or \<open>next\<close> is the outcome \<open>Fault\<close>.
\<close>

definition lru_remove :: "state \<Rightarrow> addr \<Rightarrow> error + state" where
  "lru_remove s b =
     (case next (obj s b) of
        None \<Rightarrow> Inl Fault
      | Some n \<Rightarrow>
          (let s1 = upd s n (\<lambda>x. x\<lparr>prev := prev (obj s b)\<rparr>)
           in case prev (obj s1 b) of
                None \<Rightarrow> Inl Fault
              | Some p \<Rightarrow> Inr (upd s1 p (\<lambda>x. x\<lparr>next := next (obj s1 b)\<rparr>))))"

definition lru_add :: "state \<Rightarrow> addr \<Rightarrow> addr \<Rightarrow> error + state" where
  "lru_add s b head =
     (let s1 = upd s b (\<lambda>x. x\<lparr>next := Some head\<rparr>);
          s2 = upd s1 b (\<lambda>x. x\<lparr>prev := prev (obj s1 head)\<rparr>)
      in case prev (obj s2 b) of
           None \<Rightarrow> Inl Fault
         | Some p \<Rightarrow>
             (let s3 = upd s2 p (\<lambda>x. x\<lparr>next := Some b\<rparr>)
              in case next (obj s3 b) of
                   None \<Rightarrow> Inl Fault
                 | Some n \<Rightarrow> Inr (upd s3 n (\<lambda>x. x\<lparr>prev := Some b\<rparr>))))"

subsection \<open>Initialisation\<close>

text \<open>
  The memory of \<open>bcache\<close> before \<open>binit\<close> is static storage, all zero. \<open>NBUF\<close> comes from
  \<open>param.h\<close>, which is not part of the sources: it is the parameter \<open>nbuf\<close>.
\<close>

definition zero_buf :: buf where
  "zero_buf = \<lparr>valid = False, dev = 0, blockno = 0, lock = \<lparr>locked = False, pid = 0\<rparr>,
     refcnt = 0, prev = None, next = None, next_hash = None, data = []\<rparr>"

definition boot :: "(uint \<times> uint \<Rightarrow> block) \<Rightarrow> state" where
  "boot dk = \<lparr>buf = (\<lambda>_. zero_buf), lrus = (\<lambda>_. zero_buf), elems = (\<lambda>_. None),
     disk = dk, disk_reads = 0, disk_writes = 0\<rparr>"

fun binit_heads :: "nat \<Rightarrow> state \<Rightarrow> state" where
  "binit_heads 0 s = s"
| "binit_heads (Suc i) s =
     upd (upd (binit_heads i s) (Head i) (\<lambda>x. x\<lparr>next := Some (Head i)\<rparr>))
       (Head i) (\<lambda>x. x\<lparr>prev := Some (Head i)\<rparr>)"

fun binit_bufs :: "nat \<Rightarrow> state \<Rightarrow> error + state" where
  "binit_bufs 0 s = Inr s"
| "binit_bufs (Suc i) s =
     then_do (binit_bufs i s) (\<lambda>s'. lru_add s' (Buf i) (Head (i mod NBUCKETS)))"

definition binit :: "nat \<Rightarrow> state \<Rightarrow> error + state" where
  "binit nbuf s = binit_bufs nbuf (binit_heads NBUCKETS s)"

subsection \<open>The content lock and the device\<close>

definition holdingsleep :: "nat \<Rightarrow> state \<Rightarrow> addr \<Rightarrow> bool" where
  "holdingsleep me s b \<longleftrightarrow> locked (lock (obj s b)) \<and> pid (lock (obj s b)) = me"

definition acquiresleep :: "nat \<Rightarrow> state \<Rightarrow> addr \<Rightarrow> error + state" where
  "acquiresleep me s b =
     (if locked (lock (obj s b)) then Inl Sleeps
      else Inr (upd s b (\<lambda>x. x\<lparr>lock := \<lparr>locked = True, pid = me\<rparr>\<rparr>)))"

definition releasesleep :: "state \<Rightarrow> addr \<Rightarrow> state" where
  "releasesleep s b = upd s b (\<lambda>x. x\<lparr>lock := \<lparr>locked = False, pid = 0\<rparr>\<rparr>)"

text \<open>
  Modelled from the spec: the block device driver is an external collaborator.
  \<open>read(device, buffer)\<close> fills the buffer's content, \<open>write(device, buffer)\<close> persists it;
  the block is the buffer's \<open>blockno\<close> on the device passed.
\<close>

definition virtio_disk_rw :: "state \<Rightarrow> uint \<Rightarrow> addr \<Rightarrow> bool \<Rightarrow> state" where
  "virtio_disk_rw s d b write =
     (if write
      then s\<lparr>disk := (disk s)((d, blockno (obj s b)) := data (obj s b)),
             disk_writes := Suc (disk_writes s)\<rparr>
      else (upd s b (\<lambda>x. x\<lparr>data := disk s (d, blockno (obj s b))\<rparr>))
             \<lparr>disk_reads := Suc (disk_reads s)\<rparr>)"

subsection \<open>Acquire, read, write, release, pin\<close>

text \<open>
  The spin locks \<open>bcache.lock\<close> and \<open>bcache.locks[i]\<close> order the critical sections of
  concurrent callers; a single sequential run never waits on them and they guard no data
  of their own, so \<open>acquire\<close>/\<open>release\<close> leave the state as it is. The calling process
  (\<open>myproc()\<close>) is the parameter \<open>me\<close>.
\<close>

definition bget_hit :: "nat \<Rightarrow> state \<Rightarrow> addr \<Rightarrow> error + addr \<times> state" where
  "bget_hit me s b =
     then_do (acquiresleep me (upd s b (\<lambda>x. x\<lparr>refcnt := refcnt x + 1\<rparr>)) b)
       (\<lambda>s'. Inr (b, s'))"

definition set_identity :: "state \<Rightarrow> addr \<Rightarrow> uint \<Rightarrow> uint \<Rightarrow> state" where
  "set_identity s b d bn =
     upd (upd (upd (upd s b (\<lambda>x. x\<lparr>refcnt := 1\<rparr>)) b (\<lambda>x. x\<lparr>blockno := bn\<rparr>))
       b (\<lambda>x. x\<lparr>dev := d\<rparr>)) b (\<lambda>x. x\<lparr>valid := False\<rparr>)"

definition bget_local :: "nat \<Rightarrow> state \<Rightarrow> uint \<Rightarrow> uint \<Rightarrow> error + addr \<times> state" where
  "bget_local me s d bn =
     (case next (lrus s (bucket bn)) of
        None \<Rightarrow> Inl Fault
      | Some b \<Rightarrow>
          then_do (btable_insert (set_identity s b d bn) b) (\<lambda>s1.
          then_do (lru_remove s1 b) (\<lambda>s2.
          then_do (acquiresleep me s2 b) (\<lambda>s3. Inr (b, s3)))))"

definition bget_steal :: "nat \<Rightarrow> state \<Rightarrow> uint \<Rightarrow> uint \<Rightarrow> nat \<Rightarrow> error + addr \<times> state" where
  "bget_steal me s d bn i =
     (case next (lrus s i) of
        None \<Rightarrow> Inl Fault
      | Some b \<Rightarrow>
          then_do (lru_remove s b) (\<lambda>s1.
          then_do (btable_insert s1 b) (\<lambda>s2.
          then_do (acquiresleep me (set_identity s2 b d bn) b) (\<lambda>s3. Inr (b, s3)))))"

fun bget_scan :: "nat \<Rightarrow> state \<Rightarrow> uint \<Rightarrow> uint \<Rightarrow> nat list \<Rightarrow> error + addr \<times> state" where
  "bget_scan me s d bn [] = Inl (Panic ''bget: no buffers'')"
| "bget_scan me s d bn (i # rest) =
     (if i = bucket bn then bget_scan me s d bn rest
      else
        then_do (btable_find s d bn) (\<lambda>r.
          case r of
            Some b \<Rightarrow> bget_hit me s b
          | None \<Rightarrow>
              if next (lrus s i) = Some (Head i) then bget_scan me s d bn rest
              else bget_steal me s d bn i))"

definition bget :: "nat \<Rightarrow> state \<Rightarrow> uint \<Rightarrow> uint \<Rightarrow> error + addr \<times> state" where
  "bget me s d bn =
     then_do (btable_find s d bn) (\<lambda>r.
       case r of
         Some b \<Rightarrow> bget_hit me s b
       | None \<Rightarrow>
           if next (lrus s (bucket bn)) \<noteq> Some (Head (bucket bn)) then bget_local me s d bn
           else bget_scan me s d bn [0..<NBUCKETS])"

definition bread :: "nat \<Rightarrow> state \<Rightarrow> uint \<Rightarrow> uint \<Rightarrow> error + addr \<times> state" where
  "bread me s d bn =
     then_do (bget me s d bn) (\<lambda>(b, s1).
       if \<not> valid (obj s1 b)
       then Inr (b, upd (virtio_disk_rw s1 (dev (obj s1 b)) b False) b (\<lambda>x. x\<lparr>valid := True\<rparr>))
       else Inr (b, s1))"

definition bwrite :: "nat \<Rightarrow> state \<Rightarrow> addr \<Rightarrow> error + state" where
  "bwrite me s b =
     (if \<not> holdingsleep me s b then Inl (Panic ''bwrite'')
      else Inr (virtio_disk_rw s (dev (obj s b)) b True))"

definition brelse :: "nat \<Rightarrow> state \<Rightarrow> addr \<Rightarrow> error + state" where
  "brelse me s b =
     (if \<not> holdingsleep me s b then Inl (Panic ''brelse'')
      else
        (let s1 = releasesleep s b;
             idx = bucket (blockno (obj s1 b));
             s2 = upd s1 b (\<lambda>x. x\<lparr>refcnt := refcnt x - 1\<rparr>)
         in if refcnt (obj s2 b) = 0
            then then_do (lru_add s2 b (Head idx)) (\<lambda>s3. btable_remove s3 b)
            else Inr s2))"

definition bpin :: "state \<Rightarrow> addr \<Rightarrow> state" where
  "bpin s b = upd s b (\<lambda>x. x\<lparr>refcnt := refcnt x + 1\<rparr>)"

definition bunpin :: "state \<Rightarrow> addr \<Rightarrow> state" where
  "bunpin s b = upd s b (\<lambda>x. x\<lparr>refcnt := refcnt x - 1\<rparr>)"


subsection \<open>Reading an LRU list off the store\<close>

text \<open>
  The members of shard \<open>i\<close>'s list are the nodes met from \<open>bcache.lrus[i].next\<close> along
  \<open>next\<close> before the walk is back at the head. A cache of \<open>nbuf\<close> buffers has no list
  longer than \<open>nbuf\<close>, which bounds the walk.
\<close>

fun lru_members :: "state \<Rightarrow> addr \<Rightarrow> nat \<Rightarrow> ptr \<Rightarrow> addr list" where
  "lru_members s h 0 p = []"
| "lru_members s h (Suc k) p =
     (case p of
        None \<Rightarrow> []
      | Some a \<Rightarrow> if a = h then [] else a # lru_members s h k (next (obj s a)))"

definition lru_list :: "nat \<Rightarrow> state \<Rightarrow> nat \<Rightarrow> addr list" where
  "lru_list nbuf s i = lru_members s (Head i) nbuf (next (lrus s i))"


subsection \<open>Runs of operations\<close>

text \<open>
  A caller is a sequence of calls; \<open>Fill\<close> is the holder of a buffer overwriting its
  \<open>data\<close> in place between \<open>bread\<close> and \<open>bwrite\<close>. \<open>Find\<close> and \<open>Lru\<close> change nothing:
  they record what \<open>btable_find\<close> answers and who is on a shard's list at that point of
  the run. A run stops at the first call that does not return, and collects what the
  calls returned.
\<close>

datatype op =
    Bget nat uint uint
  | Bread nat uint uint
  | Fill addr block
  | Bwrite nat addr
  | Brelse nat addr
  | Bpin addr
  | Bunpin addr
  | Find uint uint
  | Lru nat nat

datatype event = Ret addr | Found ptr | Members "addr list" | Done

fun step :: "state \<Rightarrow> op \<Rightarrow> error + event \<times> state" where
  "step s (Bget me d bn) = then_do (bget me s d bn) (\<lambda>r. Inr (Ret (fst r), snd r))"
| "step s (Bread me d bn) = then_do (bread me s d bn) (\<lambda>r. Inr (Ret (fst r), snd r))"
| "step s (Fill b v) = Inr (Done, upd s b (\<lambda>x. x\<lparr>data := v\<rparr>))"
| "step s (Bwrite me b) = then_do (bwrite me s b) (\<lambda>s'. Inr (Done, s'))"
| "step s (Brelse me b) = then_do (brelse me s b) (\<lambda>s'. Inr (Done, s'))"
| "step s (Bpin b) = Inr (Done, bpin s b)"
| "step s (Bunpin b) = Inr (Done, bunpin s b)"
| "step s (Find d bn) = then_do (btable_find s d bn) (\<lambda>r. Inr (Found r, s))"
| "step s (Lru nbuf i) = Inr (Members (lru_list nbuf s i), s)"

fun run :: "state \<Rightarrow> op list \<Rightarrow> error + event list \<times> state" where
  "run s [] = Inr ([], s)"
| "run s (x # xs) =
     then_do (step s x) (\<lambda>r.
     then_do (run (snd r) xs) (\<lambda>r'. Inr (fst r # fst r', snd r')))"

definition disk0 :: "uint \<times> uint \<Rightarrow> block" where
  "disk0 = (\<lambda>_. [])"

definition boot_run :: "nat \<Rightarrow> op list \<Rightarrow> error + event list \<times> state" where
  "boot_run nbuf ops = then_do (binit nbuf (boot disk0)) (\<lambda>s. run s ops)"

text \<open>
  What is looked at after a run: of each buffer named, its device, block number,
  reference count, validity and content; and the number of device reads.
\<close>

definition view :: "state \<Rightarrow> addr \<Rightarrow> uint \<times> uint \<times> uint \<times> bool \<times> block" where
  "view s a = (dev (obj s a), blockno (obj s a), refcnt (obj s a), valid (obj s a),
     data (obj s a))"

definition observe ::
  "nat \<Rightarrow> op list \<Rightarrow> addr list \<Rightarrow>
     error + event list \<times> (uint \<times> uint \<times> uint \<times> bool \<times> block) list \<times> nat" where
  "observe nbuf ops as =
     then_do (boot_run nbuf ops) (\<lambda>r. Inr (fst r, map (view (snd r)) as, disk_reads (snd r)))"

definition state_of :: "error + event list \<times> state \<Rightarrow> state" where
  "state_of r = (case r of Inl _ \<Rightarrow> boot disk0 | Inr x \<Rightarrow> snd x)"

definition violated :: "(state \<Rightarrow> bool) \<Rightarrow> error + event list \<times> state \<Rightarrow> bool" where
  "violated P r = (case r of Inl _ \<Rightarrow> False | Inr x \<Rightarrow> \<not> P (snd x))"

definition signed_count :: "state \<Rightarrow> addr \<Rightarrow> int" where
  "signed_count s a = sint (refcnt (obj s a))"

subsection \<open>What the callers of \<open>bpin\<close> and \<open>bunpin\<close> are held to\<close>

text \<open>
  \<open>bpin\<close> and \<open>bunpin\<close> test nothing: which buffers they may be applied to is left to
  their callers. Two conditions on a call, each read off the state the call is made in:

  \<^item> \<open>legal\<close>: \<open>bpin\<close> and \<open>bunpin\<close> are applied to a buffer whose reference count is
    not 0;
  \<^item> \<open>counted\<close>: no reference count of \<open>2^32 - 1\<close> is incremented (by \<open>bpin\<close>, or by the
    hit of \<open>bget\<close>), and \<open>bunpin\<close> is applied to a buffer whose count is neither 0 nor 1,
    so that it does not take the last reference.

  \<open>keeps P s ops\<close>: every call of the run \<open>ops\<close> from \<open>s\<close> that is reached is made in a
  state in which \<open>P\<close> admits it.
\<close>

fun legal :: "state \<Rightarrow> op \<Rightarrow> bool" where
  "legal s (Bpin b) = (refcnt (obj s b) \<noteq> 0)"
| "legal s (Bunpin b) = (refcnt (obj s b) \<noteq> 0)"
| "legal s x = True"

fun counted :: "state \<Rightarrow> op \<Rightarrow> bool" where
  "counted s (Bget me d bn) =
     (case btable_find s d bn of Inr (Some b) \<Rightarrow> refcnt (obj s b) \<noteq> - 1 | _ \<Rightarrow> True)"
| "counted s (Bread me d bn) =
     (case btable_find s d bn of Inr (Some b) \<Rightarrow> refcnt (obj s b) \<noteq> - 1 | _ \<Rightarrow> True)"
| "counted s (Bpin b) = (refcnt (obj s b) \<noteq> - 1)"
| "counted s (Bunpin b) = (refcnt (obj s b) \<noteq> 0 \<and> refcnt (obj s b) \<noteq> 1)"
| "counted s x = True"

fun keeps :: "(state \<Rightarrow> op \<Rightarrow> bool) \<Rightarrow> state \<Rightarrow> op list \<Rightarrow> bool" where
  "keeps P s [] = True"
| "keeps P s (x # xs) =
     (P s x \<and> (case step s x of Inl e \<Rightarrow> True | Inr r \<Rightarrow> keeps P (snd r) xs))"

section \<open>The store read as lists\<close>

text \<open>
  The fields of the node at an address, as functions of the address: the links \<open>nx\<close>,
  \<open>pv\<close> and \<open>nh\<close> (\<open>next\<close>, \<open>prev\<close>, \<open>next_hash\<close>), the identity \<open>idt\<close> (device and
  block number), the reference count \<open>rc\<close>, the lock \<open>lk\<close> and the payload \<open>pay\<close> (validity
  and content).
\<close>

definition nx :: "state \<Rightarrow> addr \<Rightarrow> ptr" where "nx s a = next (obj s a)"

definition pv :: "state \<Rightarrow> addr \<Rightarrow> ptr" where "pv s a = prev (obj s a)"

definition nh :: "state \<Rightarrow> addr \<Rightarrow> ptr" where "nh s a = next_hash (obj s a)"

definition idt :: "state \<Rightarrow> addr \<Rightarrow> uint \<times> uint" where "idt s a = (dev (obj s a), blockno (obj s a))"

definition rc :: "state \<Rightarrow> addr \<Rightarrow> uint" where "rc s a = refcnt (obj s a)"

definition lk :: "state \<Rightarrow> addr \<Rightarrow> sleeplock" where "lk s a = lock (obj s a)"

definition pay :: "state \<Rightarrow> addr \<Rightarrow> bool \<times> block" where "pay s a = (valid (obj s a), data (obj s a))"

text \<open>
  \<open>walk f p xs q\<close>: starting from the pointer \<open>p\<close> and following the link \<open>f\<close>, the nodes
  met are exactly \<open>xs\<close>, in this order, and the pointer after the last of them is \<open>q\<close>.
  \<open>ring s i xs\<close>: shard \<open>i\<close>'s LRU list is the circular doubly linked list of the distinct
  nodes \<open>xs\<close> around its head (\<open>prev\<close> inverts \<open>next\<close> on it). \<open>chain s i xs\<close>: shard \<open>i\<close>'s
  hash chain is the null-terminated list \<open>xs\<close>.
\<close>

fun walk :: "(addr \<Rightarrow> ptr) \<Rightarrow> ptr \<Rightarrow> addr list \<Rightarrow> ptr \<Rightarrow> bool" where
  "walk f p [] q \<longleftrightarrow> p = q"
| "walk f p (x # xs) q \<longleftrightarrow> p = Some x \<and> walk f (f x) xs q"

definition ring :: "state \<Rightarrow> nat \<Rightarrow> addr list \<Rightarrow> bool" where
  "ring s i xs \<longleftrightarrow>
     walk (nx s) (nx s (Head i)) xs (Some (Head i)) \<and> Head i \<notin> set xs \<and> distinct xs \<and>
     (\<forall>a\<in>set (Head i # xs). \<forall>n. nx s a = Some n \<longrightarrow> pv s n = Some a)"

definition chain :: "state \<Rightarrow> nat \<Rightarrow> addr list \<Rightarrow> bool" where
  "chain s i xs \<longleftrightarrow> walk (nh s) (elems s i) xs None"

text \<open>
  What two states agree on: the list links, the chains, and everything else.
\<close>

definition same_lru :: "state \<Rightarrow> state \<Rightarrow> bool" where
  "same_lru s s' \<longleftrightarrow> nx s' = nx s \<and> pv s' = pv s"

definition same_meta :: "state \<Rightarrow> state \<Rightarrow> bool" where
  "same_meta s s' \<longleftrightarrow> idt s' = idt s \<and> rc s' = rc s \<and> lk s' = lk s \<and> pay s' = pay s \<and>
     disk s' = disk s \<and> disk_reads s' = disk_reads s \<and> disk_writes s' = disk_writes s"

definition same_chains :: "state \<Rightarrow> state \<Rightarrow> bool" where
  "same_chains s s' \<longleftrightarrow> nh s' = nh s \<and> elems s' = elems s"

subsection \<open>The invariant\<close>

text \<open>
  \<open>L i\<close> is the content of shard \<open>i\<close>'s LRU list. \<open>cinv N L s\<close> is the shape of the store
  that every run from \<open>binit\<close> keeps, whatever is called:

  \<^item> \<open>lru_ok\<close>: shard \<open>i\<close>'s list is the ring \<open>L i\<close>, of buffers of the pool, and no buffer
    is on two lists;
  \<^item> \<open>free_ok\<close>: no buffer on a list is locked;
  \<^item> \<open>chain_ok\<close>: shard \<open>i\<close>'s chain is null-terminated, and among its nodes whose
    identity hashes to \<open>i\<close> (the only ones a lookup in this chain can match) no identity
    occurs twice and none is on a list. A chain may also hold nodes whose identity hashes
    elsewhere: the stealing path chains its victim under the identity it had before;
  \<^item> \<open>pool_ok\<close>: the chains hold buffers of the pool only, and only such are locked.

  \<open>idle_ok\<close>: every buffer on a list has reference count 0. \<open>full_ok\<close>: every buffer of
  count 0 is on a list, and every locked buffer has a nonzero count. Runs that keep
  \<open>legal\<close> keep the first, runs that keep \<open>counted\<close> the second.
\<close>

definition members :: "(nat \<Rightarrow> addr list) \<Rightarrow> addr set" where
  "members L = (\<Union>i<NBUCKETS. set (L i))"

definition lru_ok :: "nat \<Rightarrow> (nat \<Rightarrow> addr list) \<Rightarrow> state \<Rightarrow> bool" where
  "lru_ok N L s \<longleftrightarrow>
     (\<forall>i<NBUCKETS. ring s i (L i) \<and> set (L i) \<subseteq> Buf ` {..<N}) \<and>
     (\<forall>i<NBUCKETS. \<forall>j<NBUCKETS. i \<noteq> j \<longrightarrow> set (L i) \<inter> set (L j) = {})"

definition free_ok :: "nat \<Rightarrow> (nat \<Rightarrow> addr list) \<Rightarrow> state \<Rightarrow> bool" where
  "free_ok N L s \<longleftrightarrow> (\<forall>b<N. Buf b \<in> members L \<longrightarrow> \<not> locked (lk s (Buf b)))"

definition idle_ok :: "nat \<Rightarrow> (nat \<Rightarrow> addr list) \<Rightarrow> state \<Rightarrow> bool" where
  "idle_ok N L s \<longleftrightarrow> (\<forall>b<N. Buf b \<in> members L \<longrightarrow> rc s (Buf b) = 0)"

definition full_ok :: "nat \<Rightarrow> (nat \<Rightarrow> addr list) \<Rightarrow> state \<Rightarrow> bool" where
  "full_ok N L s \<longleftrightarrow>
     (\<forall>b<N. (rc s (Buf b) = 0 \<longrightarrow> Buf b \<in> members L) \<and>
            (locked (lk s (Buf b)) \<longrightarrow> rc s (Buf b) \<noteq> 0))"

definition pool_ok :: "nat \<Rightarrow> state \<Rightarrow> bool" where
  "pool_ok N s \<longleftrightarrow>
     (\<forall>i<NBUCKETS. \<forall>xs. chain s i xs \<longrightarrow> set xs \<subseteq> Buf ` {..<N}) \<and>
     (\<forall>a. locked (lk s a) \<longrightarrow> a \<in> Buf ` {..<N})"

definition chain_ok :: "(nat \<Rightarrow> addr list) \<Rightarrow> state \<Rightarrow> nat \<Rightarrow> bool" where
  "chain_ok L s i \<longleftrightarrow>
     (\<exists>xs. chain s i xs \<and>
        (\<forall>x\<in>set xs. \<forall>y\<in>set xs. idt s x = idt s y \<and> bucket (snd (idt s x)) = i \<longrightarrow> x = y) \<and>
        (\<forall>x\<in>set xs. bucket (snd (idt s x)) = i \<longrightarrow> x \<notin> members L))"

definition cinv :: "nat \<Rightarrow> (nat \<Rightarrow> addr list) \<Rightarrow> state \<Rightarrow> bool" where
  "cinv N L s \<longleftrightarrow>
     lru_ok N L s \<and> free_ok N L s \<and> (\<forall>i<NBUCKETS. chain_ok L s i) \<and> pool_ok N s"

text \<open>
  \<open>deal n i\<close> is the list \<open>binit\<close> has built for shard \<open>i\<close> after \<open>n\<close> buffers: buffer \<open>j\<close>
  goes to the end of the list of shard \<open>j mod 13\<close>. \<open>fresh k s\<close>: the state after \<open>k\<close>
  buffers, nothing referenced, locked or chained.
\<close>

definition deal :: "nat \<Rightarrow> nat \<Rightarrow> addr list" where
  "deal n i = map Buf (filter (\<lambda>j. j mod NBUCKETS = i) [0..<n])"

definition fresh :: "nat \<Rightarrow> state \<Rightarrow> bool" where
  "fresh k s \<longleftrightarrow> lru_ok k (deal k) s \<and> (\<forall>a. rc s a = 0) \<and> (\<forall>a. \<not> locked (lk s a)) \<and>
     (\<forall>i. elems s i = None)"

section \<open>The socket layer's receive path (\<open>sockread\<close> of \<open>sysnet.c\<close>)\<close>

text \<open>
  What \<open>sockread\<close> reads and writes: the socket's receive queue \<open>rxq\<close> (a packet is its
  payload, \<open>m->len\<close> its length), whether the caller holds \<open>s->lock\<close>, and the caller's
  \<open>killed\<close> flag.

  Modelled from the spec: \<open>sleep\<close>, \<open>wakeup\<close> and \<open>kill\<close> are in \<open>proc.c\<close>, which is not
  part of the sources. \<open>sleep(s, &s->lock)\<close> gives up the lock and suspends the thread;
  an external wake-up (a packet delivered, or the thread killed) lets it return with the
  lock held again, on whatever queue and flag the others have left. The wake-ups the thread
  will get are the list \<open>ws\<close> of the states found on return; when none is left the thread
  stays asleep (\<open>Sleeps\<close>). \<open>copyout\<close> (\<open>vm.c\<close>) is the parameter \<open>co\<close>: its result for a
  packet.
\<close>

type_synonym mbuf = "8 word list"

record sockenv =
  rxq :: "mbuf list"
  slock :: bool
  killed :: bool

definition sock_deliver :: "(mbuf \<Rightarrow> int) \<Rightarrow> int \<Rightarrow> sockenv \<Rightarrow> error + int \<times> sockenv" where
  "sock_deliver co n st =
     (case rxq st of
        [] \<Rightarrow> Inl Fault
      | m # rest \<Rightarrow>
          (let j = int (length m); st1 = st\<lparr>rxq := rest\<rparr>
           in if j > n then Inl (Panic ''smallbuf'')
              else if co m = - 1 then Inr (- 1, st1\<lparr>slock := False\<rparr>)
              else Inr (j, st1\<lparr>slock := False\<rparr>)))"

fun sockread_loop ::
  "(mbuf \<Rightarrow> int) \<Rightarrow> int \<Rightarrow> sockenv \<Rightarrow> sockenv list \<Rightarrow> error + int \<times> sockenv" where
  "sockread_loop co n st [] =
     (if rxq st = []
      then (if killed st then Inr (- 1, st\<lparr>slock := False\<rparr>) else Inl Sleeps)
      else sock_deliver co n st)"
| "sockread_loop co n st (w # ws) =
     (if rxq st = []
      then (if killed st then Inr (- 1, st\<lparr>slock := False\<rparr>)
            else sockread_loop co n (w\<lparr>slock := True\<rparr>) ws)
      else sock_deliver co n st)"

definition sockread ::
  "(mbuf \<Rightarrow> int) \<Rightarrow> int \<Rightarrow> sockenv \<Rightarrow> sockenv list \<Rightarrow> error + int \<times> sockenv" where
  "sockread co n st ws = sockread_loop co n (st\<lparr>slock := True\<rparr>) ws"

section \<open>Evaluating the cache on concrete runs\<close>

lemma then_do_weak_cong: "m = m' \<Longrightarrow> then_do m f = then_do m' f"
  by simp

lemma binit_heads_numeral:
  "binit_heads (numeral k) s =
     upd (upd (binit_heads (pred_numeral k) s) (Head (pred_numeral k))
            (\<lambda>x. x\<lparr>next := Some (Head (pred_numeral k))\<rparr>))
       (Head (pred_numeral k)) (\<lambda>x. x\<lparr>prev := Some (Head (pred_numeral k))\<rparr>)"
  by (simp add: numeral_eq_Suc)

lemma binit_bufs_numeral:
  "binit_bufs (numeral k) s =
     then_do (binit_bufs (pred_numeral k) s)
       (\<lambda>s'. lru_add s' (Buf (pred_numeral k)) (Head (pred_numeral k mod NBUCKETS)))"
  by (simp add: numeral_eq_Suc)

lemma binit_bufs_1:
  "binit_bufs 1 s = lru_add s (Buf 0) (Head 0)"
  by (simp add: NBUCKETS_def)

lemma lru_members_numeral:
  "lru_members s h (numeral k) p =
     (case p of
        None \<Rightarrow> []
      | Some a \<Rightarrow> if a = h then [] else a # lru_members s h (pred_numeral k) (next (obj s a)))"
  by (simp add: numeral_eq_Suc)

lemma upt_13: "[0..<13] = [0, 1, 2, 3, 4, 5, 6, 7, 8, 9, 10, 11, 12::nat]"
  by code_simp

lemma all_less_13:
  "(\<forall>i<13::nat. P i) \<longleftrightarrow>
     P 0 \<and> P 1 \<and> P 2 \<and> P 3 \<and> P 4 \<and> P 5 \<and> P 6 \<and> P 7 \<and> P 8 \<and> P 9 \<and> P 10 \<and> P 11 \<and> P 12"
proof -
  have "(\<forall>i<13::nat. P i) \<longleftrightarrow> (\<forall>i\<in>set [0..<13]. P i)"
    by auto
  then show ?thesis
    by (simp add: upt_13)
qed

lemmas cache_eval =
  binit_def NBUCKETS_def lru_add_def lru_remove_def Let_def bget_def btable_find_def
  find_ptr_def bucket_def find_loop.simps bget_local_def bget_steal_def bget_hit_def
  set_identity_def btable_insert_def btable_remove_def acquiresleep_def releasesleep_def
  holdingsleep_def boot_def zero_buf_def brelse_def bread_def bwrite_def bpin_def bunpin_def
  virtio_disk_rw_def binit_heads_numeral binit_bufs_numeral binit_bufs_1 upt_13
  boot_run_def disk0_def observe_def view_def lru_list_def lru_members_numeral state_of_def
  violated_def signed_count_def upd.simps obj.simps

section \<open>Duplicate residency through the stealing path\<close>

text \<open>
  C3. The claim is that no two resident buffers hold the same (device, block) identity.
  With 16 buffers, process 7 takes blocks 1 and 14 of device 1 (shard 1's own two
  buffers) and then block 27, which steals buffer 0 from shard 0. \<open>bget\<close>'s stealing path
  calls \<open>btable_insert\<close> before it writes the new identity, so buffer 0 is chained under its
  stale identity (0, 0) in shard 0, not in shard 1. A second request for (1, 27), by process
  8, therefore misses shard 1's chain at the first lookup and at the re-check, and installs
  buffer 13 under the same identity: both are referenced, both hold (1, 27).
\<close>

theorem steal_installs_duplicate:
  "observe 16 [Bget 7 1 1, Bget 7 1 14, Bget 7 1 27, Find 1 27, Bget 8 1 27] [Buf 0, Buf 13]
     = Inr ([Ret (Buf 1), Ret (Buf 14), Ret (Buf 0), Found None, Ret (Buf 13)],
            [(1, 27, 1, False, []), (1, 27, 1, False, [])], 0)"
  by (simp add: cache_eval cong: then_do_weak_cong let_weak_cong)


section \<open>The scenario of sixteen buffers and three blocks of one shard\<close>

text \<open>
  C7, as the claim states it: the second of the requests for blocks 0, 13 and 26 is
  satisfied by stealing. It is not: \<open>binit\<close> deals buffers 0 and 13 to shard 0, so after
  the first request shard 0's own list still holds buffer 13, and that is the buffer the
  second request gets.
\<close>

theorem second_request_is_local:
  "observe 16 [Bget 7 1 0, Lru 16 0, Bget 7 1 13, Lru 16 0] []
     = Inr ([Ret (Buf 0), Members [Buf 13], Ret (Buf 13), Members []], [], 0)"
  by (simp add: cache_eval cong: then_do_weak_cong let_weak_cong)

text \<open>
  C7, amended: on every device \<open>d\<close>, and for every calling process, blocks 0, 13 and 26
  requested without a release in between are given three distinct buffers (0, 13 and 1),
  which at the end are all referenced (count 1) under their three identities
  \<open>(d, 0)\<close>, \<open>(d, 13)\<close>, \<open>(d, 26)\<close>. The first two requests are satisfied from shard 0's own
  list, to which \<open>binit\<close> dealt buffers 0 and 13 and which is then empty; only the third is
  satisfied by stealing, from shard 1, whose list goes from buffers 1, 14 to 14.
\<close>

theorem three_blocks_of_shard_0:
  "observe 16
     [Bget me d 0, Lru 16 0, Bget me d 13, Lru 16 0, Lru 16 1, Bget me d 26, Lru 16 1]
     [Buf 0, Buf 13, Buf 1]
   = Inr ([Ret (Buf 0), Members [Buf 13], Ret (Buf 13), Members [], Members [Buf 1, Buf 14],
           Ret (Buf 1), Members [Buf 14]],
          [(d, 0, 1, False, []), (d, 13, 1, False, []), (d, 26, 1, False, [])], 0)"
  by (cases "d = 0") (simp_all add: cache_eval cong: then_do_weak_cong let_weak_cong)

section \<open>Exhaustion\<close>

lemma bucket_less: "bucket bn < NBUCKETS"
proof -
  have "unat (bn mod 13) = unat bn mod 13"
    by (simp add: unat_mod)
  then show ?thesis
    by (simp add: bucket_def NBUCKETS_def)
qed

lemma bget_scan_all_empty:
  assumes "btable_find s d bn = Inr None"
    and "\<forall>i\<in>set js. next (lrus s i) = Some (Head i)"
  shows "bget_scan me s d bn js = Inl (Panic ''bget: no buffers'')"
  using assms by (induction js) simp_all

text \<open>
  C8. When the chain lookup finds no buffer of the requested identity and the LRU list of
  every one of the thirteen shards is empty (the code's test for "no victim"), \<open>bget\<close>
  ends in \<open>panic("bget: no buffers")\<close>: it returns neither a buffer nor an error value,
  and it does not wait.
\<close>

theorem bget_no_victim_panics:
  assumes "btable_find s d bn = Inr None"
    and "\<forall>i<NBUCKETS. next (lrus s i) = Some (Head i)"
  shows "bget me s d bn = Inl (Panic ''bget: no buffers'')"
proof -
  have own: "next (lrus s (bucket bn)) = Some (Head (bucket bn))"
    using assms(2) bucket_less by blast
  have "\<forall>i\<in>set [0..<NBUCKETS]. next (lrus s i) = Some (Head i)"
    using assms(2) by simp
  then have "bget_scan me s d bn [0..<NBUCKETS] = Inl (Panic ''bget: no buffers'')"
    using assms(1) by (rule bget_scan_all_empty [rotated])
  then show ?thesis
    by (simp add: bget_def assms(1) own)
qed

theorem bget_no_victim_panics_witness:
  "btable_find (state_of (boot_run 1 [Bget 7 1 0])) 1 5 = Inr None \<and>
   map (\<lambda>i. next (lrus (state_of (boot_run 1 [Bget 7 1 0])) i)) [0..<13]
     = map (\<lambda>i. Some (Head i)) [0..<13] \<and>
   bget 8 (state_of (boot_run 1 [Bget 7 1 0])) 1 5 = Inl (Panic ''bget: no buffers'')"
proof -
  have miss: "btable_find (state_of (boot_run 1 [Bget 7 1 0])) 1 5 = Inr None"
    by (simp add: cache_eval cong: then_do_weak_cong let_weak_cong)
  have empty: "\<forall>i<NBUCKETS. next (lrus (state_of (boot_run 1 [Bget 7 1 0])) i) = Some (Head i)"
    by (simp add: cache_eval all_less_13 cong: then_do_weak_cong let_weak_cong)
  have "map (\<lambda>i. next (lrus (state_of (boot_run 1 [Bget 7 1 0])) i)) [0..<13]
     = map (\<lambda>i. Some (Head i)) [0..<13]"
    using empty by (simp add: NBUCKETS_def)
  then show ?thesis
    using bget_no_victim_panics [OF miss empty] miss by simp
qed


section \<open>A killed reader of a socket\<close>

lemma sockread_loop_idle_wakes:
  assumes "rxq st = []" and "\<not> killed st"
    and "\<forall>v\<in>set vs. rxq v = [] \<and> \<not> killed v"
    and "rxq w = []" and "killed w"
  shows "sockread_loop co n st (vs @ w # ws) = Inr (- 1, w\<lparr>slock := False\<rparr>)"
  using assms
proof (induction vs arbitrary: st)
  case Nil
  then show ?case
    by (cases ws) simp_all
next
  case (Cons v vs)
  have "sockread_loop co n (v\<lparr>slock := True\<rparr>) (vs @ w # ws) = Inr (- 1, w\<lparr>slock := False\<rparr>)"
    using Cons.prems by (intro Cons.IH) simp_all
  then show ?case
    using Cons.prems(1,2) by simp
qed

text \<open>
  C9. A thread that went to sleep in \<open>sockread\<close> (empty queue, not killed) and is woken
  any number of times with the queue still empty, the last time by a kill, returns \<open>-1\<close>
  with \<open>s->lock\<close> released at that wake-up: whatever wake-ups \<open>ws\<close> might still follow, it
  does not sleep again.
\<close>

theorem sockread_killed_returns_failure:
  assumes "rxq st = []" and "\<not> killed st"
    and "\<forall>v\<in>set vs. rxq v = [] \<and> \<not> killed v"
    and "rxq w = []" and "killed w"
  shows "sockread co n st (vs @ w # ws) = Inr (- 1, w\<lparr>slock := False\<rparr>)"
  unfolding sockread_def
  using assms by (intro sockread_loop_idle_wakes) simp_all

theorem sockread_killed_returns_failure_witness:
  "sockread (\<lambda>m. 0) 64 \<lparr>rxq = [], slock = False, killed = False\<rparr>
     ([\<lparr>rxq = [], slock = False, killed = False\<rparr>] @
       \<lparr>rxq = [], slock = False, killed = True\<rparr> # [])
   = Inr (- 1, \<lparr>rxq = [], slock = False, killed = True\<rparr>)"
  using sockread_killed_returns_failure
    [of "\<lparr>rxq = [], slock = False, killed = False\<rparr>"
        "[\<lparr>rxq = [], slock = False, killed = False\<rparr>]"
        "\<lparr>rxq = [], slock = False, killed = True\<rparr>" "\<lambda>m. 0" 64 "[]"]
  by simp


section \<open>Frames and effects of the list and chain operations\<close>

lemmas proj_defs = nx_def pv_def nh_def idt_def rc_def lk_def pay_def

lemma obj_upd: "obj (upd s a f) a' = (if a' = a then f (obj s a) else obj s a')"
  by (cases a; cases a') simp_all

lemma upd_frame [simp]:
  "elems (upd s a f) = elems s" "disk (upd s a f) = disk s"
  "disk_reads (upd s a f) = disk_reads s" "disk_writes (upd s a f) = disk_writes s"
  by (cases a; simp)+

lemma obj_elems_update [simp]: "obj (s\<lparr>elems := e\<rparr>) a = obj s a"
  by (cases a) simp_all

lemma obj_Buf: "obj s (Buf i) = buf s i" and obj_Head: "obj s (Head i) = lrus s i"
  by simp_all

declare upd.simps [simp del] obj.simps [simp del]

lemma lru_add_effect:
  assumes "pv s h = Some t" and "t \<noteq> b" and "h \<noteq> b"
  shows "\<exists>s'. lru_add s b h = Inr s' \<and>
     nx s' = (nx s)(b := Some h, t := Some b) \<and> pv s' = (pv s)(b := Some t, h := Some b) \<and>
     nh s' = nh s \<and> elems s' = elems s \<and> idt s' = idt s \<and> rc s' = rc s \<and> lk s' = lk s \<and>
     pay s' = pay s \<and> disk s' = disk s \<and> disk_reads s' = disk_reads s \<and>
     disk_writes s' = disk_writes s"
  using assms by (auto simp add: lru_add_def Let_def proj_defs obj_upd fun_eq_iff)

lemma lru_remove_effect:
  assumes "nx s v = Some n" and "pv s v = Some h" and "n \<noteq> v"
  shows "\<exists>s'. lru_remove s v = Inr s' \<and>
     nx s' = (nx s)(h := Some n) \<and> pv s' = (pv s)(n := Some h) \<and>
     nh s' = nh s \<and> elems s' = elems s \<and> idt s' = idt s \<and> rc s' = rc s \<and> lk s' = lk s \<and>
     pay s' = pay s \<and> disk s' = disk s \<and> disk_reads s' = disk_reads s \<and>
     disk_writes s' = disk_writes s"
  using assms by (auto simp add: lru_remove_def Let_def proj_defs obj_upd fun_eq_iff)

lemma set_identity_effect:
  "nx (set_identity s b d bn) = nx s" "pv (set_identity s b d bn) = pv s"
  "nh (set_identity s b d bn) = nh s" "elems (set_identity s b d bn) = elems s"
  "idt (set_identity s b d bn) = (idt s)(b := (d, bn))"
  "rc (set_identity s b d bn) = (rc s)(b := 1)"
  "lk (set_identity s b d bn) = lk s"
  "pay (set_identity s b d bn) = (pay s)(b := (False, snd (pay s b)))"
  "disk (set_identity s b d bn) = disk s" "disk_reads (set_identity s b d bn) = disk_reads s"
  "disk_writes (set_identity s b d bn) = disk_writes s"
  by (auto simp add: set_identity_def proj_defs obj_upd fun_eq_iff)

lemma walk_append: "walk f p (xs @ ys) q \<longleftrightarrow> (\<exists>r. walk f p xs r \<and> walk f r ys q)"
  by (induction xs arbitrary: p) auto

lemma walk_cong: "(\<forall>a\<in>set xs. g a = f a) \<Longrightarrow> walk g p xs q = walk f p xs q"
  by (induction xs arbitrary: p) auto

lemma walk_upd_notin: "a \<notin> set xs \<Longrightarrow> walk (f(a := v)) p xs q = walk f p xs q"
  by (rule walk_cong) auto

lemma walk_last: "walk f (f a) xs q \<Longrightarrow> f (last (a # xs)) = q"
  by (induction xs arbitrary: a) auto

lemma walk_succ: "walk f p xs q \<Longrightarrow> a \<in> set xs \<Longrightarrow> f a = q \<or> (\<exists>m\<in>set xs. f a = Some m)"
proof (induction xs arbitrary: p)
  case Nil
  then show ?case by simp
next
  case (Cons x xs)
  show ?case
  proof (cases "a = x")
    case True
    then show ?thesis
      using Cons.prems(1) by (cases xs) auto
  next
    case False
    then show ?thesis
      using Cons by auto
  qed
qed

lemma walk_None_unique: "walk f p xs None \<Longrightarrow> walk f p ys None \<Longrightarrow> xs = ys"
proof (induction xs arbitrary: p ys)
  case Nil
  then show ?case by (cases ys) auto
next
  case (Cons x xs)
  then show ?case by (cases ys) auto
qed

lemma walk_None_notin: "walk f (f a) xs None \<Longrightarrow> a \<notin> set xs"
proof
  assume w: "walk f (f a) xs None" and "a \<in> set xs"
  then obtain us vs where xs: "xs = us @ a # vs"
    by (auto simp: in_set_conv_decomp)
  with w have "walk f (f a) vs None"
    by (auto simp: walk_append)
  with w have "xs = vs"
    by (rule walk_None_unique)
  with xs have "length vs = length (us @ a # vs)"
    by simp
  then show False
    by simp
qed

lemma walk_None_distinct: "walk f p xs None \<Longrightarrow> distinct xs"
  by (induction xs arbitrary: p) (auto dest: walk_None_notin)

lemma ring_next_last: "ring s i xs \<Longrightarrow> nx s (last (Head i # xs)) = Some (Head i)"
  unfolding ring_def by (blast dest: walk_last)

lemma ring_prev_head: "ring s i xs \<Longrightarrow> pv s (Head i) = Some (last (Head i # xs))"
proof -
  assume r: "ring s i xs"
  have "last (Head i # xs) \<in> set (Head i # xs)"
    by (rule last_in_set) simp
  with r ring_next_last [OF r] show ?thesis
    unfolding ring_def by blast
qed

lemma ring_closed:
  assumes "ring s i xs" and "a \<in> set (Head i # xs)"
  shows "\<exists>m\<in>set (Head i # xs). nx s a = Some m"
proof (cases "a = Head i")
  case True
  then show ?thesis
    using assms(1) unfolding ring_def by (cases xs) auto
next
  case False
  then have "a \<in> set xs"
    using assms(2) by simp
  then show ?thesis
    using assms(1) walk_succ [of "nx s" "nx s (Head i)" xs "Some (Head i)" a]
    unfolding ring_def by auto
qed

lemma ring_frame:
  assumes "ring s i xs"
    and "\<forall>a\<in>set (Head i # xs). nx s' a = nx s a \<and> pv s' a = pv s a"
  shows "ring s' i xs"
proof -
  have w: "walk (nx s') (nx s' (Head i)) xs (Some (Head i))"
    using assms unfolding ring_def by (simp add: walk_cong [of xs "nx s'" "nx s"])
  have "pv s' n = Some a" if "a \<in> set (Head i # xs)" and "nx s' a = Some n" for a n
  proof -
    have nxa: "nx s a = Some n"
      using that assms(2) by auto
    then have "n \<in> set (Head i # xs)"
      using ring_closed [OF assms(1) that(1)] by auto
    then show ?thesis
      using assms nxa that(1) unfolding ring_def by auto
  qed
  then show ?thesis
    using assms(1) w unfolding ring_def by blast
qed

lemma walk_redirect_last:
  assumes "distinct xs" and "xs \<noteq> []" and "b \<notin> set xs" and "walk f p xs q"
  shows "walk (f(b := u, last xs := w)) p xs w"
  using assms
proof (induction xs arbitrary: p)
  case Nil
  then show ?case by simp
next
  case (Cons x xs)
  show ?case
  proof (cases "xs = []")
    case True
    then show ?thesis
      using Cons.prems by simp
  next
    case False
    have px: "p = Some x" and wx: "walk f (f x) xs q"
      using Cons.prems(4) by auto
    have ih: "walk (f(b := u, last xs := w)) (f x) xs w"
      using Cons.prems False wx by (intro Cons.IH) auto
    have "last xs \<in> set xs"
      using False by simp
    then have "x \<noteq> last xs"
      using Cons.prems(1) by auto
    moreover have "x \<noteq> b"
      using Cons.prems(3) by auto
    ultimately have fx: "(f(b := u, last xs := w)) x = f x"
      by simp
    have "last (x # xs) = last xs"
      using False by simp
    then show ?thesis
      using px ih fx by (simp del: fun_upd_apply)
  qed
qed

lemma ring_add:
  assumes r: "ring s i xs" and b: "b \<notin> set xs" "b \<noteq> Head i"
    and nx': "nx s' = (nx s)(b := Some (Head i), last (Head i # xs) := Some b)"
    and pv': "pv s' = (pv s)(b := Some (last (Head i # xs)), Head i := Some b)"
  shows "ring s' i (xs @ [b])"
proof -
  let ?h = "Head i" and ?t = "last (Head i # xs)"
  have t_in: "?t \<in> set (?h # xs)"
    by (rule last_in_set) simp
  then have tb: "?t \<noteq> b"
    using b by auto
  have w: "walk (nx s) (nx s ?h) xs (Some ?h)" and hx: "?h \<notin> set xs" and dx: "distinct xs"
    using r unfolding ring_def by auto
  have w1: "walk (nx s') (nx s' ?h) xs (Some b)"
  proof (cases xs)
    case Nil
    then show ?thesis by (simp add: nx')
  next
    case (Cons y ys)
    then have "?t = last xs" by simp
    moreover have "walk ((nx s)(b := Some ?h, last xs := Some b)) (nx s ?h) xs (Some b)"
      using dx b(1) w Cons by (intro walk_redirect_last) auto
    moreover have "nx s' ?h = nx s ?h"
      using Cons hx b(2) by (auto simp: nx')
    ultimately show ?thesis
      by (simp add: nx')
  qed
  have "nx s' b = Some ?h"
    using tb by (simp add: nx')
  then have w2: "walk (nx s') (nx s' ?h) (xs @ [b]) (Some ?h)"
    using w1 by (auto simp: walk_append)
  have c: "pv s' n = Some a" if a: "a \<in> set (?h # xs @ [b])" and n: "nx s' a = Some n" for a n
  proof (cases "a = b \<or> a = ?t")
    case True
    then show ?thesis
      using n tb b(2) by (auto simp: nx' pv')
  next
    case False
    then have a': "a \<in> set (?h # xs)" and nxa: "nx s a = Some n"
      using a n by (auto simp: nx')
    then have pn: "pv s n = Some a"
      using r unfolding ring_def by blast
    have "n \<in> set (?h # xs)"
      using ring_closed [OF r a'] nxa by auto
    then have "n \<noteq> b"
      using b by auto
    moreover have "n \<noteq> ?h"
      using pn ring_prev_head [OF r] False by auto
    ultimately show ?thesis
      using pn by (simp add: pv')
  qed
  show ?thesis
    unfolding ring_def using w2 hx dx b c by auto
qed

lemma ring_remove:
  assumes r: "ring s i (v # xs)" and n: "nx s v = Some n"
    and nx': "nx s' = (nx s)(Head i := Some n)"
    and pv': "pv s' = (pv s)(n := Some (Head i))"
  shows "ring s' i xs"
proof -
  let ?h = "Head i"
  have hv: "nx s ?h = Some v" and w: "walk (nx s) (nx s v) xs (Some ?h)"
    and hx: "?h \<notin> set xs" "?h \<noteq> v" and dx: "distinct xs" "v \<notin> set xs"
    using r unfolding ring_def by auto
  have w': "walk (nx s') (nx s' ?h) xs (Some ?h)"
    using w hx(1) n by (simp add: nx' walk_upd_notin)
  have pvn: "pv s n = Some v"
    using r n unfolding ring_def by auto
  have c: "pv s' m = Some a" if a: "a \<in> set (?h # xs)" and m: "nx s' a = Some m" for a m
  proof (cases "a = ?h")
    case True
    then show ?thesis
      using m by (simp add: nx' pv')
  next
    case False
    then have "a \<in> set xs" and nxa: "nx s a = Some m"
      using a m by (auto simp: nx')
    then have pm: "pv s m = Some a"
      using r unfolding ring_def by auto
    have "m \<noteq> n"
      using pm pvn \<open>a \<in> set xs\<close> dx(2) by auto
    then show ?thesis
      using pm by (simp add: pv')
  qed
  show ?thesis
    unfolding ring_def using w' hx dx c by auto
qed

lemma ring_hd:
  assumes "ring s i (v # xs)"
  shows "nx s (Head i) = Some v" and "pv s v = Some (Head i)"
    and "\<exists>n. nx s v = Some n \<and> n \<noteq> v"
proof -
  show hv: "nx s (Head i) = Some v"
    using assms unfolding ring_def by simp
  then show "pv s v = Some (Head i)"
    using assms unfolding ring_def by simp
  obtain m where m: "m \<in> set (Head i # v # xs)" "nx s v = Some m"
    using ring_closed [OF assms, of v] by auto
  moreover have "m \<noteq> v"
  proof
    assume "m = v"
    then have "pv s v = Some v"
      using assms m(2) unfolding ring_def by auto
    with \<open>pv s v = Some (Head i)\<close> assms show False
      unfolding ring_def by auto
  qed
  ultimately show "\<exists>n. nx s v = Some n \<and> n \<noteq> v"
    by blast
qed

lemma ring_empty_iff: "ring s i xs \<Longrightarrow> nx s (Head i) = Some (Head i) \<longleftrightarrow> xs = []"
  unfolding ring_def by (cases xs) auto



lemma slot_get_nh: "slot_get s (NextHash a) = nh s a"
  by (simp add: nh_def)

lemma find_loop_walk:
  assumes "walk (nh s) (slot_get s p) xs None"
  shows "\<exists>q. find_loop s d bn p = Some q \<and> (q = p \<or> (\<exists>l\<in>set xs. q = NextHash l)) \<and>
           slot_get s q = List.find (\<lambda>a. idt s a = (d, bn)) xs"
  using assms
proof (induction xs arbitrary: p)
  case Nil
  then show ?case
    by (subst find_loop.simps) simp
next
  case (Cons x xs)
  then have px: "slot_get s p = Some x" and w0: "walk (nh s) (nh s x) xs None"
    by auto
  have "slot_get s (NextHash x) = nh s x"
    by (simp add: nh_def)
  with w0 have w: "walk (nh s) (slot_get s (NextHash x)) xs None"
    by (simp only:)
  show ?case
  proof (cases "idt s x = (d, bn)")
    case True
    then show ?thesis
      using px by (subst find_loop.simps) (auto simp: idt_def)
  next
    case False
    obtain q where q: "find_loop s d bn (NextHash x) = Some q"
      "q = NextHash x \<or> (\<exists>l\<in>set xs. q = NextHash l)"
      "slot_get s q = List.find (\<lambda>a. idt s a = (d, bn)) xs"
      using Cons.IH [OF w] by blast
    have "find_loop s d bn p = find_loop s d bn (NextHash x)"
      using px False by (subst find_loop.simps) (auto simp: idt_def)
    then show ?thesis
      using q False by auto
  qed
qed

lemma find_ptr_chain:
  assumes "chain s (bucket bn) xs"
  shows "\<exists>q. find_ptr s d bn = Some q \<and> (q = Elems (bucket bn) \<or> (\<exists>l\<in>set xs. q = NextHash l)) \<and>
           slot_get s q = List.find (\<lambda>a. idt s a = (d, bn)) xs"
  unfolding find_ptr_def using assms find_loop_walk [of s "Elems (bucket bn)" xs d bn]
  by (simp add: chain_def)

lemma btable_find_chain:
  "chain s (bucket bn) xs \<Longrightarrow> btable_find s d bn = Inr (List.find (\<lambda>a. idt s a = (d, bn)) xs)"
  using find_ptr_chain [of s bn xs d] by (auto simp: btable_find_def)

lemma walk_insert:
  "walk f p xs None \<Longrightarrow> \<exists>ys. walk (f(l := Some v, v := None)) p ys None \<and> set ys \<subseteq> insert v (set xs)"
proof (induction xs arbitrary: p)
  case Nil
  then show ?case
    by (intro exI [of _ "[]"]) simp
next
  case (Cons x xs)
  then have p: "p = Some x" and w: "walk f (f x) xs None"
    by auto
  let ?g = "f(l := Some v, v := None)"
  consider "x = v" | "x \<noteq> v" "x = l" | "x \<noteq> v" "x \<noteq> l"
    by blast
  then show ?case
  proof cases
    case 1
    then have "walk ?g p [v] None"
      using p by simp
    then show ?thesis
      using 1 by (intro exI [of _ "[v]"]) (simp del: fun_upd_apply)
  next
    case 2
    then have "walk ?g p [l, v] None"
      using p by simp
    then show ?thesis
      using 2 by (intro exI [of _ "[l, v]"]) (simp del: fun_upd_apply)
  next
    case 3
    obtain ys where ys: "walk ?g (f x) ys None" "set ys \<subseteq> insert v (set xs)"
      using Cons.IH [OF w] by blast
    have "?g x = f x"
      using 3 by simp
    then have "walk ?g p (x # ys) None"
      using p ys(1) by (simp del: fun_upd_apply)
    then show ?thesis
      using ys(2) by (intro exI [of _ "x # ys"]) (auto simp del: fun_upd_apply)
  qed
qed

lemma walk_cut:
  "walk f p xs None \<Longrightarrow> \<exists>ys. walk (f(v := None)) p ys None \<and> set ys \<subseteq> set xs"
proof (induction xs arbitrary: p)
  case Nil
  then show ?case
    by (intro exI [of _ "[]"]) simp
next
  case (Cons x xs)
  then have p: "p = Some x" and w: "walk f (f x) xs None"
    by auto
  let ?g = "f(v := None)"
  show ?case
  proof (cases "x = v")
    case True
    then have "walk ?g p [v] None"
      using p by simp
    then show ?thesis
      using True by (intro exI [of _ "[v]"]) (simp del: fun_upd_apply)
  next
    case False
    obtain ys where ys: "walk ?g (f x) ys None" "set ys \<subseteq> set xs"
      using Cons.IH [OF w] by blast
    have "?g x = f x"
      using False by simp
    then have "walk ?g p (x # ys) None"
      using p ys(1) by (simp del: fun_upd_apply)
    then show ?thesis
      using ys(2) by (intro exI [of _ "x # ys"]) (auto simp del: fun_upd_apply)
  qed
qed

lemma walk_unlink:
  assumes "walk f p xs None" and "f l = Some m"
  shows "\<exists>ys. walk (f(l := f m)) p ys None \<and> set ys \<subseteq> set xs \<and> (l \<in> set xs \<longrightarrow> m \<notin> set ys)"
  using assms(1)
proof (induction xs arbitrary: p)
  case Nil
  then show ?case
    by (intro exI [of _ "[]"]) simp
next
  case (Cons x xs)
  then have p: "p = Some x" and w: "walk f (f x) xs None"
    by auto
  have dx: "distinct (x # xs)"
    using Cons.prems by (rule walk_None_distinct)
  let ?g = "f(l := f m)"
  show ?case
  proof (cases "x = l")
    case True
    then obtain zs where xs: "xs = m # zs" and wz: "walk f (f m) zs None"
      using w assms(2) by (cases xs) auto
    have l: "l \<notin> set zs" "m \<noteq> l" "m \<notin> set zs"
      using dx True xs by auto
    then have "walk ?g (f m) zs None"
      using wz by (simp add: walk_upd_notin)
    moreover have "?g l = f m"
      by simp
    ultimately have "walk ?g p (l # zs) None"
      using p True by (simp del: fun_upd_apply)
    then show ?thesis
      using xs l True by (intro exI [of _ "l # zs"]) (auto simp del: fun_upd_apply)
  next
    case False
    obtain ys where ys: "walk ?g (f x) ys None" "set ys \<subseteq> set xs"
      "l \<in> set xs \<longrightarrow> m \<notin> set ys"
      using Cons.IH [OF w] by blast
    have mx: "m \<noteq> x" if "l \<in> set xs"
    proof -
      have "m \<in> set xs"
        using walk_succ [OF w that] assms(2) by auto
      then show ?thesis
        using dx by auto
    qed
    have "?g x = f x"
      using False by simp
    then have "walk ?g p (x # ys) None"
      using p ys(1) by (simp del: fun_upd_apply)
    then show ?thesis
      using ys(2,3) mx False by (intro exI [of _ "x # ys"]) (auto simp del: fun_upd_apply)
  qed
qed

lemma proj_elems_update [simp]:
  "nx (s\<lparr>elems := e\<rparr>) = nx s" "pv (s\<lparr>elems := e\<rparr>) = pv s" "nh (s\<lparr>elems := e\<rparr>) = nh s"
  "idt (s\<lparr>elems := e\<rparr>) = idt s" "rc (s\<lparr>elems := e\<rparr>) = rc s" "lk (s\<lparr>elems := e\<rparr>) = lk s"
  "pay (s\<lparr>elems := e\<rparr>) = pay s"
  by (simp_all add: proj_defs fun_eq_iff)

lemma slot_set_frame:
  "same_lru s (slot_set s q v)" "same_meta s (slot_set s q v)"
  by (cases q; auto simp: same_lru_def same_meta_def proj_defs obj_upd fun_eq_iff)+

lemma slot_set_chain:
  "elems (slot_set s (Elems k) v) = (elems s)(k := v)" "nh (slot_set s (Elems k) v) = nh s"
  "elems (slot_set s (NextHash l) v) = elems s" "nh (slot_set s (NextHash l) v) = (nh s)(l := v)"
  by (auto simp: proj_defs obj_upd fun_eq_iff)

lemma clear_next_hash_frame:
  "same_lru s (upd s b (\<lambda>x. x\<lparr>next_hash := v\<rparr>))" "same_meta s (upd s b (\<lambda>x. x\<lparr>next_hash := v\<rparr>))"
  "elems (upd s b (\<lambda>x. x\<lparr>next_hash := v\<rparr>)) = elems s"
  "nh (upd s b (\<lambda>x. x\<lparr>next_hash := v\<rparr>)) = (nh s)(b := v)"
  by (auto simp: same_lru_def same_meta_def proj_defs obj_upd fun_eq_iff)

lemma same_lru_trans: "same_lru s s1 \<Longrightarrow> same_lru s1 s2 \<Longrightarrow> same_lru s s2"
  by (simp add: same_lru_def)

lemma same_meta_trans: "same_meta s s1 \<Longrightarrow> same_meta s1 s2 \<Longrightarrow> same_meta s s2"
  by (simp add: same_meta_def)

lemma btable_insert_effect:
  assumes "chain s (bucket (snd (idt s b))) xs0"
  shows "\<exists>s'. btable_insert s b = Inr s' \<and> same_lru s s' \<and> same_meta s s' \<and>
     (\<forall>i xs. chain s i xs \<longrightarrow> (\<exists>ys. chain s' i ys \<and> set ys \<subseteq> insert b (set xs)))"
proof -
  obtain q where q: "find_ptr s (dev (obj s b)) (blockno (obj s b)) = Some q"
    "q = Elems (bucket (blockno (obj s b))) \<or> (\<exists>l. q = NextHash l)"
    using find_ptr_chain [of s "blockno (obj s b)" xs0 "dev (obj s b)"] assms
    by (auto simp: idt_def)
  let ?s1 = "slot_set s q (Some b)"
  let ?s' = "upd ?s1 b (\<lambda>x. x\<lparr>next_hash := None\<rparr>)"
  have res: "btable_insert s b = Inr ?s'"
    by (simp add: btable_insert_def q(1))
  have fr: "same_lru s ?s'" "same_meta s ?s'"
    using slot_set_frame [of s q "Some b"] clear_next_hash_frame(1,2) [of ?s1 b None]
    by (blast intro: same_lru_trans same_meta_trans)+
  have ch: "\<exists>ys. chain ?s' i ys \<and> set ys \<subseteq> insert b (set xs)" if c: "chain s i xs" for i xs
  proof -
    from q(2) show ?thesis
    proof
      assume qe: "q = Elems (bucket (blockno (obj s b)))"
      let ?k = "bucket (blockno (obj s b))"
      have e: "elems ?s' = (elems s)(?k := Some b)" and n: "nh ?s' = (nh s)(b := None)"
        by (simp_all add: qe clear_next_hash_frame slot_set_chain)
      show ?thesis
      proof (cases "i = ?k")
        case True
        then have "chain ?s' i [b]"
          unfolding chain_def e n by simp
        then show ?thesis
          by (intro exI [of _ "[b]"]) simp
      next
        case False
        obtain ys where "walk ((nh s)(b := None)) (elems s i) ys None" "set ys \<subseteq> set xs"
          using walk_cut [of "nh s" "elems s i" xs b] c unfolding chain_def by blast
        then have "chain ?s' i ys" "set ys \<subseteq> insert b (set xs)"
          unfolding chain_def e n using False by auto
        then show ?thesis
          by blast
      qed
    next
      assume "\<exists>l. q = NextHash l"
      then obtain l where ql: "q = NextHash l"
        by blast
      have e: "elems ?s' = elems s" and n: "nh ?s' = (nh s)(l := Some b, b := None)"
        by (simp_all add: ql clear_next_hash_frame slot_set_chain)
      obtain ys where "walk ((nh s)(l := Some b, b := None)) (elems s i) ys None"
        "set ys \<subseteq> insert b (set xs)"
        using walk_insert [of "nh s" "elems s i" xs l b] c unfolding chain_def by blast
      then have "chain ?s' i ys"
        unfolding chain_def e n by simp
      then show ?thesis
        using \<open>set ys \<subseteq> insert b (set xs)\<close> by blast
    qed
  qed
  show ?thesis
    using res fr ch by blast
qed

lemma btable_remove_effect:
  assumes "chain s (bucket (snd (idt s b))) xs0"
  shows "\<exists>s'. btable_remove s b = Inr s' \<and> same_lru s s' \<and> same_meta s s' \<and>
     (\<forall>i xs. chain s i xs \<longrightarrow>
        (\<exists>ys. chain s' i ys \<and> set ys \<subseteq> set xs \<and>
           (i = bucket (snd (idt s b)) \<longrightarrow>
              (\<forall>m. List.find (\<lambda>a. idt s a = idt s b) xs = Some m \<longrightarrow> m \<notin> set ys))))"
proof -
  let ?k = "bucket (blockno (obj s b))"
  let ?P = "\<lambda>a. idt s a = idt s b"
  have k: "bucket (snd (idt s b)) = ?k" and ib: "idt s b = (dev (obj s b), blockno (obj s b))"
    by (simp_all add: idt_def)
  obtain q where q: "find_ptr s (dev (obj s b)) (blockno (obj s b)) = Some q"
    "q = Elems ?k \<or> (\<exists>l\<in>set xs0. q = NextHash l)"
    "slot_get s q = List.find ?P xs0"
    using find_ptr_chain [of s "blockno (obj s b)" xs0 "dev (obj s b)"] assms
    unfolding k ib by auto
  show ?thesis
  proof (cases "List.find ?P xs0")
    case None
    then have "btable_remove s b = Inr s"
      using q by (simp add: btable_remove_def)
    moreover have "List.find ?P xs = None" if "chain s ?k xs" for xs
      using that assms None walk_None_unique unfolding chain_def k by blast
    ultimately show ?thesis
      unfolding k by (auto simp: same_lru_def same_meta_def)
  next
    case (Some m)
    let ?s' = "slot_set s q (nh s m)"
    have res: "btable_remove s b = Inr ?s'"
      using q Some by (simp add: btable_remove_def nh_def)
    have fr: "same_lru s ?s'" "same_meta s ?s'"
      by (rule slot_set_frame)+
    have uniq: "xs = xs0" if "chain s ?k xs" for xs
      using that assms walk_None_unique unfolding chain_def k by blast
    have ch: "\<exists>ys. chain ?s' i ys \<and> set ys \<subseteq> set xs \<and>
        (i = ?k \<longrightarrow> (\<forall>m'. List.find ?P xs = Some m' \<longrightarrow> m' \<notin> set ys))"
      if c: "chain s i xs" for i xs
    proof -
      from q(2) show ?thesis
      proof
        assume qe: "q = Elems ?k"
        then have em: "elems s ?k = Some m"
          using q(3) Some by simp
        have e: "elems ?s' = (elems s)(?k := nh s m)" and n: "nh ?s' = nh s"
          by (simp_all add: qe slot_set_chain)
        show ?thesis
        proof (cases "i = ?k")
          case True
          then obtain zs where xs: "xs = m # zs" and wz: "walk (nh s) (nh s m) zs None"
            using c em unfolding chain_def by (cases xs) auto
          have "distinct xs"
            using c unfolding chain_def by (rule walk_None_distinct)
          then have "m \<notin> set zs"
            using xs by simp
          moreover have "chain ?s' i zs"
            unfolding chain_def e n using wz True by simp
          moreover have "List.find ?P xs = Some m"
            using uniq c True Some by auto
          ultimately show ?thesis
            using xs by (intro exI [of _ zs]) auto
        next
          case False
          then have "chain ?s' i xs"
            using c unfolding chain_def e n by simp
          then show ?thesis
            using False by blast
        qed
      next
        assume "\<exists>l\<in>set xs0. q = NextHash l"
        then obtain l where l: "l \<in> set xs0" and ql: "q = NextHash l"
          by blast
        have lm: "nh s l = Some m"
          using q(3) Some ql by (simp add: nh_def)
        have e: "elems ?s' = elems s" and n: "nh ?s' = (nh s)(l := nh s m)"
          by (simp_all add: ql clear_next_hash_frame)
        obtain ys where ys: "walk ((nh s)(l := nh s m)) (elems s i) ys None" "set ys \<subseteq> set xs"
          "l \<in> set xs \<longrightarrow> m \<notin> set ys"
          using walk_unlink [of "nh s" "elems s i" xs l m] c lm unfolding chain_def by blast
        have "chain ?s' i ys"
          unfolding chain_def e n using ys(1) by simp
        moreover have "m' \<notin> set ys" if "i = ?k" and "List.find ?P xs = Some m'" for m'
          using that uniq [of xs] c l ys(3) Some by auto
        ultimately show ?thesis
          using ys(2) by blast
      qed
    qed
    show ?thesis
      unfolding k using res fr ch by blast
  qed
qed

section \<open>The list part of the invariant\<close>

lemma lru_okI:
  assumes "\<And>i. i < NBUCKETS \<Longrightarrow> ring s i (L i)"
    and "\<And>i. i < NBUCKETS \<Longrightarrow> set (L i) \<subseteq> Buf ` {..<N}"
    and "\<And>i j. i < NBUCKETS \<Longrightarrow> j < NBUCKETS \<Longrightarrow> i \<noteq> j \<Longrightarrow> set (L i) \<inter> set (L j) = {}"
  shows "lru_ok N L s"
  unfolding lru_ok_def using assms by blast

lemma lru_okD:
  assumes "lru_ok N L s" and "i < NBUCKETS"
  shows "ring s i (L i)" and "set (L i) \<subseteq> Buf ` {..<N}"
    and "j < NBUCKETS \<Longrightarrow> i \<noteq> j \<Longrightarrow> set (L i) \<inter> set (L j) = {}"
  using assms unfolding lru_ok_def by blast+

lemma members_iff: "a \<in> members L \<longleftrightarrow> (\<exists>i<NBUCKETS. a \<in> set (L i))"
  by (auto simp: members_def)

lemma members_add: "i < NBUCKETS \<Longrightarrow> members (L(i := L i @ [b])) = insert b (members L)"
  by (auto simp: members_iff split: if_splits)

lemma members_remove_hd:
  assumes "lru_ok N L s" and "i < NBUCKETS" and "L i = v # xs"
  shows "members (L(i := xs)) = members L - {v}"
proof -
  have "ring s i (v # xs)"
    using lru_okD(1) [OF assms(1,2)] assms(3) by simp
  then have d: "v \<notin> set xs"
    unfolding ring_def by simp
  have o: "v \<notin> set (L j)" if "j < NBUCKETS" "j \<noteq> i" for j
    using lru_okD(3) [OF assms(1,2) that(1)] that(2) assms(3) by auto
  have "a \<in> members (L(i := xs)) \<longleftrightarrow> a \<in> members L \<and> a \<noteq> v" for a
  proof
    assume "a \<in> members (L(i := xs))"
    then obtain j where j: "j < NBUCKETS" "a \<in> set ((L(i := xs)) j)"
      unfolding members_iff by blast
    show "a \<in> members L \<and> a \<noteq> v"
    proof (cases "j = i")
      case True
      then have "a \<in> set xs"
        using j(2) by simp
      then show ?thesis
        using d assms(2,3) unfolding members_iff by (metis list.set_intros(2))
    next
      case False
      then have "a \<in> set (L j)"
        using j(2) by simp
      then show ?thesis
        using o [OF j(1) False] j(1) unfolding members_iff by blast
    qed
  next
    assume a: "a \<in> members L \<and> a \<noteq> v"
    then obtain j where j: "j < NBUCKETS" "a \<in> set (L j)"
      unfolding members_iff by blast
    have "a \<in> set ((L(i := xs)) j)"
      using j(2) a assms(3) by (cases "j = i") auto
    then show "a \<in> members (L(i := xs))"
      using j(1) unfolding members_iff by blast
  qed
  then show ?thesis
    by blast
qed

lemma lru_ok_frame:
  assumes "lru_ok N L s" and "same_lru s s'"
  shows "lru_ok N L s'"
proof (rule lru_okI)
  fix i assume i: "i < NBUCKETS"
  have "ring s i (L i)"
    using assms(1) i by (rule lru_okD(1))
  moreover have "\<forall>a\<in>set (Head i # L i). nx s' a = nx s a \<and> pv s' a = pv s a"
    using assms(2) unfolding same_lru_def by simp
  ultimately show "ring s' i (L i)"
    by (rule ring_frame)
  show "set (L i) \<subseteq> Buf ` {..<N}"
    using assms(1) i by (rule lru_okD(2))
next
  fix i j assume "i < NBUCKETS" "j < NBUCKETS" "i \<noteq> j"
  then show "set (L i) \<inter> set (L j) = {}"
    using assms(1) by (intro lru_okD(3))
qed

lemma lru_ok_add:
  assumes ok: "lru_ok N L s" and i: "i < NBUCKETS" and b: "b < N" "Buf b \<notin> members L"
  shows "\<exists>s'. lru_add s (Buf b) (Head i) = Inr s' \<and> lru_ok N (L(i := L i @ [Buf b])) s' \<and>
           same_chains s s' \<and> same_meta s s'"
proof -
  let ?h = "Head i" and ?t = "last (Head i # L i)"
  have r: "ring s i (L i)" and sub: "set (L i) \<subseteq> Buf ` {..<N}"
    using lru_okD [OF ok i] by blast+
  have bi: "Buf b \<notin> set (L i)"
    using b(2) i by (auto simp: members_iff)
  have t_in: "?t \<in> set (?h # L i)"
    by (rule last_in_set) simp
  then have tb: "?t \<noteq> Buf b"
    using bi by auto
  obtain s' where s': "lru_add s (Buf b) ?h = Inr s'"
    "nx s' = (nx s)(Buf b := Some ?h, ?t := Some (Buf b))"
    "pv s' = (pv s)(Buf b := Some ?t, ?h := Some (Buf b))"
    "nh s' = nh s" "elems s' = elems s" "idt s' = idt s" "rc s' = rc s" "lk s' = lk s"
    "pay s' = pay s" "disk s' = disk s" "disk_reads s' = disk_reads s"
    "disk_writes s' = disk_writes s"
    using lru_add_effect [OF ring_prev_head [OF r] tb] by auto
  have ri: "ring s' i (L i @ [Buf b])"
    using r bi s'(2,3) by (intro ring_add) auto
  have rj: "ring s' j (L j)" if j: "j < NBUCKETS" "j \<noteq> i" for j
  proof -
    have rj0: "ring s j (L j)" and subj: "set (L j) \<subseteq> Buf ` {..<N}"
      and dj: "set (L i) \<inter> set (L j) = {}"
      using lru_okD(1,2) [OF ok j(1)] lru_okD(3) [OF ok i j(1)] j(2) by blast+
    have "a \<noteq> Buf b \<and> a \<noteq> ?t \<and> a \<noteq> ?h" if "a \<in> set (Head j # L j)" for a
    proof -
      have "a \<noteq> Buf b"
        using that b(2) j(1) by (auto simp: members_iff)
      moreover have "a \<noteq> ?h"
        using that subj j(2) by auto
      moreover have "a \<noteq> ?t"
        using that t_in subj sub dj j(2) by auto
      ultimately show ?thesis
        by simp
    qed
    then have "\<forall>a\<in>set (Head j # L j). nx s' a = nx s a \<and> pv s' a = pv s a"
      by (simp add: s'(2,3))
    with rj0 show ?thesis
      by (rule ring_frame)
  qed
  have "lru_ok N (L(i := L i @ [Buf b])) s'"
  proof (rule lru_okI)
    fix j assume j: "j < NBUCKETS"
    show "ring s' j ((L(i := L i @ [Buf b])) j)"
      using ri rj [OF j] by (cases "j = i") simp_all
    show "set ((L(i := L i @ [Buf b])) j) \<subseteq> Buf ` {..<N}"
      using lru_okD(2) [OF ok j] sub b(1) by (cases "j = i") auto
  next
    fix j k assume jk: "j < NBUCKETS" "k < NBUCKETS" "j \<noteq> k"
    have "Buf b \<notin> set (L j)" "Buf b \<notin> set (L k)"
      using b(2) jk by (auto simp: members_iff)
    then show "set ((L(i := L i @ [Buf b])) j) \<inter> set ((L(i := L i @ [Buf b])) k) = {}"
      using lru_okD(3) [OF ok jk(1) jk(2,3)] jk(3) by auto
  qed
  moreover have "same_chains s s'" "same_meta s s'"
    using s' by (simp_all add: same_chains_def same_meta_def)
  ultimately show ?thesis
    using s'(1) by blast
qed

lemma lru_ok_remove:
  assumes ok: "lru_ok N L s" and i: "i < NBUCKETS" and Li: "L i = v # xs"
  shows "\<exists>s'. lru_remove s v = Inr s' \<and> lru_ok N (L(i := xs)) s' \<and>
           same_chains s s' \<and> same_meta s s'"
proof -
  let ?h = "Head i"
  have r: "ring s i (v # xs)" and sub: "set (v # xs) \<subseteq> Buf ` {..<N}"
    using lru_okD(1,2) [OF ok i] Li by simp_all
  obtain n where n: "nx s v = Some n" "n \<noteq> v"
    using ring_hd(3) [OF r] by blast
  have n_in: "n \<in> set (?h # v # xs)"
    using ring_closed [OF r, of v] n by auto
  obtain s' where s': "lru_remove s v = Inr s'"
    "nx s' = (nx s)(?h := Some n)" "pv s' = (pv s)(n := Some ?h)"
    "nh s' = nh s" "elems s' = elems s" "idt s' = idt s" "rc s' = rc s" "lk s' = lk s"
    "pay s' = pay s" "disk s' = disk s" "disk_reads s' = disk_reads s"
    "disk_writes s' = disk_writes s"
    using lru_remove_effect [OF n(1) ring_hd(2) [OF r] n(2)] by auto
  have ri: "ring s' i xs"
    using r n(1) s'(2,3) by (rule ring_remove)
  have rj: "ring s' j (L j)" if j: "j < NBUCKETS" "j \<noteq> i" for j
  proof -
    have rj0: "ring s j (L j)" and subj: "set (L j) \<subseteq> Buf ` {..<N}"
      and dj: "set (L i) \<inter> set (L j) = {}"
      using lru_okD(1,2) [OF ok j(1)] lru_okD(3) [OF ok i j(1)] j(2) by blast+
    have "a \<noteq> n \<and> a \<noteq> ?h" if "a \<in> set (Head j # L j)" for a
      using that n_in subj sub dj j(2) Li by auto
    then have "\<forall>a\<in>set (Head j # L j). nx s' a = nx s a \<and> pv s' a = pv s a"
      by (simp add: s'(2,3))
    with rj0 show ?thesis
      by (rule ring_frame)
  qed
  have "lru_ok N (L(i := xs)) s'"
  proof (rule lru_okI)
    fix j assume j: "j < NBUCKETS"
    show "ring s' j ((L(i := xs)) j)"
      using ri rj [OF j] by (cases "j = i") simp_all
    show "set ((L(i := xs)) j) \<subseteq> Buf ` {..<N}"
      using lru_okD(2) [OF ok j] sub by (cases "j = i") auto
  next
    fix j k assume jk: "j < NBUCKETS" "k < NBUCKETS" "j \<noteq> k"
    show "set ((L(i := xs)) j) \<inter> set ((L(i := xs)) k) = {}"
      using lru_okD(3) [OF ok jk(1) jk(2,3)] jk(3) Li by auto
  qed
  moreover have "same_chains s s'" "same_meta s s'"
    using s' by (simp_all add: same_chains_def same_meta_def)
  ultimately show ?thesis
    using s'(1) by blast
qed

section \<open>The chain part of the invariant\<close>

lemma same_chains_chain: "same_chains s s' \<Longrightarrow> chain s' i xs = chain s i xs"
  by (simp add: same_chains_def chain_def)

lemma same_chains_trans: "same_chains s s1 \<Longrightarrow> same_chains s1 s2 \<Longrightarrow> same_chains s s2"
  by (simp add: same_chains_def)

lemma same_refl [simp]: "same_lru s s" "same_chains s s" "same_meta s s"
  by (simp_all add: same_lru_def same_chains_def same_meta_def)

lemma set_identity_frame: "same_lru s (set_identity s b d bn)" "same_chains s (set_identity s b d bn)"
  by (simp_all add: same_lru_def same_chains_def set_identity_effect)

lemma acquiresleep_effect:
  assumes "\<not> locked (lk s b)"
  shows "\<exists>s'. acquiresleep me s b = Inr s' \<and> same_lru s s' \<and> same_chains s s' \<and>
     idt s' = idt s \<and> rc s' = rc s \<and> pay s' = pay s \<and>
     lk s' = (lk s)(b := \<lparr>locked = True, pid = me\<rparr>) \<and>
     disk s' = disk s \<and> disk_reads s' = disk_reads s \<and> disk_writes s' = disk_writes s"
  using assms
  by (auto simp: acquiresleep_def same_lru_def same_chains_def proj_defs obj_upd fun_eq_iff)

lemma acquiresleep_locked: "locked (lk s b) \<Longrightarrow> acquiresleep me s b = Inl Sleeps"
  by (simp add: acquiresleep_def lk_def)

lemma chain_okI:
  assumes "chain s i xs"
    and "\<And>x y. x \<in> set xs \<Longrightarrow> y \<in> set xs \<Longrightarrow> idt s x = idt s y \<Longrightarrow>
           bucket (snd (idt s x)) = i \<Longrightarrow> x = y"
    and "\<And>x. x \<in> set xs \<Longrightarrow> bucket (snd (idt s x)) = i \<Longrightarrow> x \<notin> members L"
  shows "chain_ok L s i"
  unfolding chain_ok_def using assms by blast

lemma chain_unique: "chain s i xs \<Longrightarrow> chain s i ys \<Longrightarrow> xs = ys"
  unfolding chain_def by (rule walk_None_unique)

lemma chain_ok_install:
  assumes old: "chain_ok L s i"
    and ch: "\<And>xs. chain s i xs \<Longrightarrow> \<exists>ys. chain s' i ys \<and> set ys \<subseteq> insert v (set xs)"
    and id: "idt s' = (idt s)(v := (d, bn))"
    and miss: "\<And>xs a. bucket bn = i \<Longrightarrow> chain s i xs \<Longrightarrow> a \<in> set xs \<Longrightarrow> idt s a \<noteq> (d, bn)"
    and mem: "members L' \<subseteq> members L" "v \<notin> members L'"
  shows "chain_ok L' s' i"
proof -
  obtain xs where xs: "chain s i xs"
    and U: "\<forall>x\<in>set xs. \<forall>y\<in>set xs. idt s x = idt s y \<and> bucket (snd (idt s x)) = i \<longrightarrow> x = y"
    and J: "\<forall>x\<in>set xs. bucket (snd (idt s x)) = i \<longrightarrow> x \<notin> members L"
    using old unfolding chain_ok_def by blast
  obtain ys where ys: "chain s' i ys" "set ys \<subseteq> insert v (set xs)"
    using ch [OF xs] by blast
  show ?thesis
  proof (rule chain_okI [OF ys(1)])
    fix x y
    assume a: "x \<in> set ys" "y \<in> set ys" "idt s' x = idt s' y" "bucket (snd (idt s' x)) = i"
    show "x = y"
    proof (cases "x = v")
      case True
      show ?thesis
      proof (rule ccontr)
        assume xy: "x \<noteq> y"
        have ix: "idt s' x = (d, bn)"
          using True by (simp add: id)
        have "idt s' y = idt s y"
          using xy True by (simp add: id)
        then have "idt s y = (d, bn)"
          using a(3) ix by simp
        moreover have "bucket bn = i"
          using a(4) ix by simp
        moreover have "y \<in> set xs"
          using a(2) xy True ys(2) by auto
        ultimately show False
          using miss xs by blast
      qed
    next
      case False
      show ?thesis
      proof (cases "y = v")
        case True
        have iy: "idt s' y = (d, bn)"
          using True by (simp add: id)
        have ix: "idt s' x = idt s x"
          using False by (simp add: id)
        then have "idt s x = (d, bn)"
          using a(3) iy by simp
        moreover have "bucket bn = i"
          using a(3,4) iy by simp
        moreover have "x \<in> set xs"
          using a(1) False ys(2) by auto
        ultimately show ?thesis
          using miss xs by blast
      next
        case yv: False
        have "x \<in> set xs" "y \<in> set xs"
          using a(1,2) False yv ys(2) by auto
        moreover have "idt s x = idt s y" "bucket (snd (idt s x)) = i"
          using a(3,4) False yv by (simp_all add: id)
        ultimately show ?thesis
          using U by blast
      qed
    qed
  next
    fix x
    assume a: "x \<in> set ys" "bucket (snd (idt s' x)) = i"
    show "x \<notin> members L'"
    proof (cases "x = v")
      case True
      then show ?thesis
        using mem(2) by simp
    next
      case False
      then have "x \<notin> members L"
        using a False ys(2) J by (auto simp: id)
      then show ?thesis
        using mem(1) by blast
    qed
  qed
qed

lemma chain_ok_release:
  assumes old: "chain_ok L s i"
    and ch: "\<And>xs. chain s i xs \<Longrightarrow> \<exists>ys. chain s' i ys \<and> set ys \<subseteq> set xs \<and>
        (i = bucket (snd (idt s b)) \<longrightarrow>
           (\<forall>m. List.find (\<lambda>a. idt s a = idt s b) xs = Some m \<longrightarrow> m \<notin> set ys))"
    and id: "idt s' = idt s"
    and mem: "members L' \<subseteq> insert b (members L)"
  shows "chain_ok L' s' i"
proof -
  obtain xs where xs: "chain s i xs"
    and U: "\<forall>x\<in>set xs. \<forall>y\<in>set xs. idt s x = idt s y \<and> bucket (snd (idt s x)) = i \<longrightarrow> x = y"
    and J: "\<forall>x\<in>set xs. bucket (snd (idt s x)) = i \<longrightarrow> x \<notin> members L"
    using old unfolding chain_ok_def by blast
  obtain ys where ys: "chain s' i ys" "set ys \<subseteq> set xs"
    "i = bucket (snd (idt s b)) \<longrightarrow>
       (\<forall>m. List.find (\<lambda>a. idt s a = idt s b) xs = Some m \<longrightarrow> m \<notin> set ys)"
    using ch [OF xs] by blast
  show ?thesis
  proof (rule chain_okI [OF ys(1)])
    fix x y
    assume a: "x \<in> set ys" "y \<in> set ys" "idt s' x = idt s' y" "bucket (snd (idt s' x)) = i"
    have "x \<in> set xs" "y \<in> set xs"
      using a(1,2) ys(2) by auto
    moreover have "idt s x = idt s y" "bucket (snd (idt s x)) = i"
      using a(3,4) by (simp_all add: id)
    ultimately show "x = y"
      using U by blast
  next
    fix x
    assume a: "x \<in> set ys" "bucket (snd (idt s' x)) = i"
    then have xin: "x \<in> set xs" and bx: "bucket (snd (idt s x)) = i"
      using ys(2) by (auto simp: id)
    have "x \<noteq> b"
    proof
      assume xb: "x = b"
      then have "\<exists>a\<in>set xs. idt s a = idt s b"
        using xin by blast
      then obtain m where m: "List.find (\<lambda>a. idt s a = idt s b) xs = Some m"
        by (cases "List.find (\<lambda>a. idt s a = idt s b) xs") (auto simp: find_None_iff)
      then have "m \<in> set xs" "idt s m = idt s b"
        by (auto simp: find_Some_iff)
      then have "m = b"
        using U xin bx xb by auto
      then show False
        using ys(3) m bx xb a(1) by auto
    qed
    then show "x \<notin> members L'"
      using J xin bx mem by blast
  qed
qed

lemma chain_ok_same:
  assumes "chain_ok L s i" and "same_chains s s'" and "idt s' = idt s" and "members L' \<subseteq> members L"
  shows "chain_ok L' s' i"
proof -
  obtain xs where xs: "chain s i xs"
    and U: "\<forall>x\<in>set xs. \<forall>y\<in>set xs. idt s x = idt s y \<and> bucket (snd (idt s x)) = i \<longrightarrow> x = y"
    and J: "\<forall>x\<in>set xs. bucket (snd (idt s x)) = i \<longrightarrow> x \<notin> members L"
    using assms(1) unfolding chain_ok_def by blast
  have "chain s' i xs"
    using xs assms(2) by (simp add: same_chains_chain)
  then show ?thesis
  proof (rule chain_okI)
    fix x y
    assume a: "x \<in> set xs" "y \<in> set xs" "idt s' x = idt s' y" "bucket (snd (idt s' x)) = i"
    have "idt s x = idt s y" "bucket (snd (idt s x)) = i"
      using a(3,4) by (simp_all add: assms(3))
    then show "x = y"
      using a(1,2) U by blast
  next
    fix x
    assume "x \<in> set xs" "bucket (snd (idt s' x)) = i"
    then show "x \<notin> members L'"
      using J assms(4) by (auto simp: assms(3))
  qed
qed

section \<open>What \<open>bget\<close> does on each of its paths\<close>

lemma cinvD:
  assumes "cinv N L s"
  shows "lru_ok N L s" and "free_ok N L s" and "i < NBUCKETS \<Longrightarrow> chain_ok L s i"
    and "pool_ok N s"
  using assms unfolding cinv_def by blast+

lemma pool_okD:
  assumes "pool_ok N s"
  shows "i < NBUCKETS \<Longrightarrow> chain s i xs \<Longrightarrow> set xs \<subseteq> Buf ` {..<N}"
    and "locked (lk s a) \<Longrightarrow> a \<in> Buf ` {..<N}"
  using assms unfolding pool_ok_def by blast+

lemma pool_ok_step:
  assumes old: "pool_ok N s"
    and ex: "\<And>j. j < NBUCKETS \<Longrightarrow> \<exists>ys. chain s j ys"
    and ch: "\<And>j ys. j < NBUCKETS \<Longrightarrow> chain s j ys \<Longrightarrow>
               \<exists>zs. chain s' j zs \<and> set zs \<subseteq> insert v (set ys)"
    and v: "v \<in> Buf ` {..<N}"
    and lk: "\<And>a. locked (lk s' a) \<Longrightarrow> a = v \<or> locked (lk s a)"
  shows "pool_ok N s'"
  unfolding pool_ok_def
proof (intro conjI allI impI)
  fix j zs assume j: "j < NBUCKETS" and zs: "chain s' j zs"
  obtain ys where ys: "chain s j ys"
    using ex [OF j] by blast
  obtain zs' where zs': "chain s' j zs'" "set zs' \<subseteq> insert v (set ys)"
    using ch [OF j ys] by blast
  have "zs = zs'"
    using zs zs'(1) by (rule chain_unique)
  moreover have "set ys \<subseteq> Buf ` {..<N}"
    using old j ys by (rule pool_okD(1))
  ultimately show "set zs \<subseteq> Buf ` {..<N}"
    using zs'(2) v by blast
next
  fix a assume "locked (lk s' a)"
  then show "a \<in> Buf ` {..<N}"
    using lk [of a] v pool_okD(2) [OF old] by blast
qed

lemma pool_ok_same:
  assumes old: "pool_ok N s" and sc: "same_chains s s'"
    and lk: "\<And>a. locked (lk s' a) \<Longrightarrow> a \<in> Buf ` {..<N} \<or> locked (lk s a)"
  shows "pool_ok N s'"
  unfolding pool_ok_def
proof (intro conjI allI impI)
  fix j zs assume "j < NBUCKETS" and "chain s' j zs"
  then show "set zs \<subseteq> Buf ` {..<N}"
    using pool_okD(1) [OF old] same_chains_chain [OF sc] by blast
next
  fix a assume "locked (lk s' a)"
  then show "a \<in> Buf ` {..<N}"
    using lk [of a] pool_okD(2) [OF old] by blast
qed

lemma cinv_chain: "cinv N L s \<Longrightarrow> i < NBUCKETS \<Longrightarrow> \<exists>xs. chain s i xs"
  unfolding cinv_def chain_ok_def by blast

lemma miss_no_match:
  assumes "btable_find s d bn = Inr None" and "chain s (bucket bn) xs" and "a \<in> set xs"
  shows "idt s a \<noteq> (d, bn)"
proof -
  have "List.find (\<lambda>a. idt s a = (d, bn)) xs = None"
    using btable_find_chain [OF assms(2), of d] assms(1) by simp
  then show ?thesis
    using assms(3) by (auto simp: find_None_iff)
qed

lemma lru_hd_facts:
  assumes "lru_ok N L s" and "free_ok N L s" and "i < NBUCKETS" and "L i = v # xs"
  shows "next (lrus s i) = Some v" and "v \<in> members L" and "\<not> locked (lk s v)"
    and "nx s (Head i) \<noteq> Some (Head i)" and "v \<in> Buf ` {..<N}"
proof -
  have r: "ring s i (v # xs)"
    using lru_okD(1) [OF assms(1,3)] assms(4) by simp
  then have "nx s (Head i) = Some v"
    by (rule ring_hd(1))
  then show "next (lrus s i) = Some v"
    by (simp add: nx_def obj_Head)
  show "nx s (Head i) \<noteq> Some (Head i)"
    using ring_empty_iff [OF r] by simp
  show m: "v \<in> members L"
    using assms(3,4) unfolding members_iff by (metis list.set_intros(1))
  obtain b where b: "v = Buf b" "b < N"
    using lru_okD(2) [OF assms(1,3)] assms(4) by auto
  then show "\<not> locked (lk s v)"
    using assms(2) m unfolding free_ok_def by blast
  show "v \<in> Buf ` {..<N}"
    using b by simp
qed

lemma bget_local_effect:
  assumes inv: "cinv N L s" and miss: "btable_find s d bn = Inr None"
    and Li: "L (bucket bn) = v # xs"
  shows "\<exists>s'. bget_local me s d bn = Inr (v, s') \<and> cinv N (L(bucket bn := xs)) s' \<and>
     idt s' = (idt s)(v := (d, bn)) \<and> rc s' = (rc s)(v := 1) \<and>
     pay s' = (pay s)(v := (False, snd (pay s v))) \<and>
     lk s' = (lk s)(v := \<lparr>locked = True, pid = me\<rparr>) \<and>
     disk s' = disk s \<and> disk_reads s' = disk_reads s \<and> disk_writes s' = disk_writes s"
proof -
  let ?i = "bucket bn" and ?L' = "L(bucket bn := xs)"
  note i = bucket_less [of bn]
  note ok = cinvD(1) [OF inv] and rok = cinvD(2) [OF inv]
  note hd = lru_hd_facts [OF ok rok i Li]
  let ?s1 = "set_identity s v d bn"
  obtain C where C: "chain s ?i C"
    using cinv_chain [OF inv i] by blast
  have "chain ?s1 (bucket (snd (idt ?s1 v))) C"
    using C by (simp add: same_chains_chain [OF set_identity_frame(2)] set_identity_effect)
  then obtain s2 where s2: "btable_insert ?s1 v = Inr s2" "same_lru ?s1 s2" "same_meta ?s1 s2"
    "\<forall>j ys. chain ?s1 j ys \<longrightarrow> (\<exists>zs. chain s2 j zs \<and> set zs \<subseteq> insert v (set ys))"
    using btable_insert_effect [of ?s1 v C] by blast
  have ok2: "lru_ok N L s2"
    using ok set_identity_frame(1) s2(2) by (blast intro: lru_ok_frame)
  obtain s3 where s3: "lru_remove s2 v = Inr s3" "lru_ok N ?L' s3" "same_chains s2 s3"
    "same_meta s2 s3"
    using lru_ok_remove [OF ok2 i Li] by blast
  have m3: "idt s3 = (idt s)(v := (d, bn))" "rc s3 = (rc s)(v := 1)"
    "pay s3 = (pay s)(v := (False, snd (pay s v)))" "lk s3 = lk s"
    "disk s3 = disk s" "disk_reads s3 = disk_reads s" "disk_writes s3 = disk_writes s"
    using s2(3) s3(4) by (simp_all add: same_meta_def set_identity_effect)
  have "\<not> locked (lk s3 v)"
    using hd(3) by (simp add: m3)
  then obtain s4 where s4: "acquiresleep me s3 v = Inr s4" "same_lru s3 s4" "same_chains s3 s4"
    "idt s4 = idt s3" "rc s4 = rc s3" "pay s4 = pay s3"
    "lk s4 = (lk s3)(v := \<lparr>locked = True, pid = me\<rparr>)"
    "disk s4 = disk s3" "disk_reads s4 = disk_reads s3" "disk_writes s4 = disk_writes s3"
    using acquiresleep_effect [of s3 v me] by blast
  have res: "bget_local me s d bn = Inr (v, s4)"
    by (simp add: bget_local_def hd(1) s2(1) s3(1) s4(1))
  have mem: "members ?L' = members L - {v}"
    using ok i Li by (rule members_remove_hd)
  have l4: "lru_ok N ?L' s4"
    using s3(2) s4(2) by (rule lru_ok_frame)
  have r4: "free_ok N ?L' s4"
    using rok unfolding free_ok_def by (auto simp: mem s4 m3)
  have ch4: "\<exists>zs. chain s4 j zs \<and> set zs \<subseteq> insert v (set ys)" if "chain s j ys" for j ys
  proof -
    have "chain ?s1 j ys"
      using that by (simp add: same_chains_chain [OF set_identity_frame(2)])
    then obtain zs where "chain s2 j zs" "set zs \<subseteq> insert v (set ys)"
      using s2(4) by blast
    then show ?thesis
      using same_chains_chain [OF same_chains_trans [OF s3(3) s4(3)]] by blast
  qed
  have p4: "pool_ok N s4"
  proof (rule pool_ok_step [OF cinvD(4) [OF inv], of s4 v])
    show "\<exists>ys. chain s j ys" if "j < NBUCKETS" for j
      using cinv_chain [OF inv that] .
    show "a = v \<or> locked (lk s a)" if "locked (lk s4 a)" for a
      using that by (auto simp: s4 m3 split: if_splits)
  qed (use ch4 hd(5) in blast)+
  have c4: "chain_ok ?L' s4 j" if j: "j < NBUCKETS" for j
  proof (rule chain_ok_install [OF cinvD(3) [OF inv j], of s4 v d bn])
    fix ys assume "chain s j ys"
    then show "\<exists>zs. chain s4 j zs \<and> set zs \<subseteq> insert v (set ys)"
      by (rule ch4)
  next
    show "idt s4 = (idt s)(v := (d, bn))"
      by (simp add: s4 m3)
  next
    fix ys a assume "bucket bn = j" "chain s j ys" "a \<in> set ys"
    then show "idt s a \<noteq> (d, bn)"
      using miss_no_match [OF miss] by blast
  qed (simp_all add: mem)
  have "cinv N ?L' s4"
    unfolding cinv_def using l4 r4 c4 p4 by blast
  then show ?thesis
    using res by (simp add: s4 m3)
qed

lemma bget_steal_effect:
  assumes inv: "cinv N L s" and miss: "btable_find s d bn = Inr None"
    and i: "i < NBUCKETS" and Li: "L i = v # xs"
  shows "\<exists>s'. bget_steal me s d bn i = Inr (v, s') \<and> cinv N (L(i := xs)) s' \<and>
     idt s' = (idt s)(v := (d, bn)) \<and> rc s' = (rc s)(v := 1) \<and>
     pay s' = (pay s)(v := (False, snd (pay s v))) \<and>
     lk s' = (lk s)(v := \<lparr>locked = True, pid = me\<rparr>) \<and>
     disk s' = disk s \<and> disk_reads s' = disk_reads s \<and> disk_writes s' = disk_writes s"
proof -
  let ?L' = "L(i := xs)"
  note ok = cinvD(1) [OF inv] and rok = cinvD(2) [OF inv]
  note hd = lru_hd_facts [OF ok rok i Li]
  obtain s1 where s1: "lru_remove s v = Inr s1" "lru_ok N ?L' s1" "same_chains s s1"
    "same_meta s s1"
    using lru_ok_remove [OF ok i Li] by blast
  have m1: "idt s1 = idt s" "rc s1 = rc s" "pay s1 = pay s" "lk s1 = lk s"
    "disk s1 = disk s" "disk_reads s1 = disk_reads s" "disk_writes s1 = disk_writes s"
    using s1(4) by (simp_all add: same_meta_def)
  obtain C where C: "chain s (bucket (snd (idt s v))) C"
    using cinv_chain [OF inv bucket_less] by blast
  then have "chain s1 (bucket (snd (idt s1 v))) C"
    by (simp add: same_chains_chain [OF s1(3)] m1)
  then obtain s2 where s2: "btable_insert s1 v = Inr s2" "same_lru s1 s2" "same_meta s1 s2"
    "\<forall>j ys. chain s1 j ys \<longrightarrow> (\<exists>zs. chain s2 j zs \<and> set zs \<subseteq> insert v (set ys))"
    using btable_insert_effect [of s1 v C] by blast
  let ?s3 = "set_identity s2 v d bn"
  have m3: "idt ?s3 = (idt s)(v := (d, bn))" "rc ?s3 = (rc s)(v := 1)"
    "pay ?s3 = (pay s)(v := (False, snd (pay s v)))" "lk ?s3 = lk s"
    "disk ?s3 = disk s" "disk_reads ?s3 = disk_reads s" "disk_writes ?s3 = disk_writes s"
    using s2(3) by (simp_all add: same_meta_def set_identity_effect m1)
  have "\<not> locked (lk ?s3 v)"
    using hd(3) by (simp add: m3)
  then obtain s4 where s4: "acquiresleep me ?s3 v = Inr s4" "same_lru ?s3 s4"
    "same_chains ?s3 s4" "idt s4 = idt ?s3" "rc s4 = rc ?s3" "pay s4 = pay ?s3"
    "lk s4 = (lk ?s3)(v := \<lparr>locked = True, pid = me\<rparr>)"
    "disk s4 = disk ?s3" "disk_reads s4 = disk_reads ?s3" "disk_writes s4 = disk_writes ?s3"
    using acquiresleep_effect [of ?s3 v me] by blast
  have res: "bget_steal me s d bn i = Inr (v, s4)"
    by (simp add: bget_steal_def hd(1) s1(1) s2(1) s4(1))
  have mem: "members ?L' = members L - {v}"
    using ok i Li by (rule members_remove_hd)
  have "same_lru s1 s4"
    using s2(2) set_identity_frame(1) [of s2 v d bn] s4(2) by (blast intro: same_lru_trans)
  with s1(2) have l4: "lru_ok N ?L' s4"
    by (rule lru_ok_frame)
  have r4: "free_ok N ?L' s4"
    using rok unfolding free_ok_def by (auto simp: mem s4 m3)
  have sc: "same_chains s2 s4"
    using set_identity_frame(2) [of s2 v d bn] s4(3) by (rule same_chains_trans)
  have ch4: "\<exists>zs. chain s4 j zs \<and> set zs \<subseteq> insert v (set ys)" if "chain s j ys" for j ys
  proof -
    have "chain s1 j ys"
      using that by (simp add: same_chains_chain [OF s1(3)])
    then obtain zs where "chain s2 j zs" "set zs \<subseteq> insert v (set ys)"
      using s2(4) by blast
    then show ?thesis
      using same_chains_chain [OF sc] by blast
  qed
  have p4: "pool_ok N s4"
  proof (rule pool_ok_step [OF cinvD(4) [OF inv], of s4 v])
    show "\<exists>ys. chain s j ys" if "j < NBUCKETS" for j
      using cinv_chain [OF inv that] .
    show "a = v \<or> locked (lk s a)" if "locked (lk s4 a)" for a
      using that by (auto simp: s4 m3 split: if_splits)
  qed (use ch4 hd(5) in blast)+
  have c4: "chain_ok ?L' s4 j" if j: "j < NBUCKETS" for j
  proof (rule chain_ok_install [OF cinvD(3) [OF inv j], of s4 v d bn])
    fix ys assume "chain s j ys"
    then show "\<exists>zs. chain s4 j zs \<and> set zs \<subseteq> insert v (set ys)"
      by (rule ch4)
  next
    show "idt s4 = (idt s)(v := (d, bn))"
      by (simp add: s4 m3)
  next
    fix ys a assume "bucket bn = j" "chain s j ys" "a \<in> set ys"
    then show "idt s a \<noteq> (d, bn)"
      using miss_no_match [OF miss] by blast
  qed (simp_all add: mem)
  have "cinv N ?L' s4"
    unfolding cinv_def using l4 r4 c4 p4 by blast
  then show ?thesis
    using res by (simp add: s4 m3)
qed

lemma found_facts:
  assumes inv: "cinv N L s" and found: "btable_find s d bn = Inr (Some v)"
  shows "idt s v = (d, bn)" and "v \<notin> members L" and "v \<in> Buf ` {..<N}"
proof -
  obtain xs where xs: "chain s (bucket bn) xs"
    and J: "\<forall>x\<in>set xs. bucket (snd (idt s x)) = bucket bn \<longrightarrow> x \<notin> members L"
    using cinvD(3) [OF inv bucket_less, of bn] unfolding chain_ok_def by blast
  have "List.find (\<lambda>a. idt s a = (d, bn)) xs = Some v"
    using btable_find_chain [OF xs, of d] found by simp
  then have v: "v \<in> set xs" "idt s v = (d, bn)"
    by (auto simp: find_Some_iff)
  then show "idt s v = (d, bn)" "v \<notin> members L"
    using J by auto
  show "v \<in> Buf ` {..<N}"
    using pool_okD(1) [OF cinvD(4) [OF inv] bucket_less xs] v(1) by blast
qed

lemma lookup_total:
  assumes "cinv N L s"
  shows "\<exists>r. btable_find s d bn = Inr r"
  using cinv_chain [OF assms bucket_less, of bn] btable_find_chain by blast

lemma word_succ_nonzero: "(x :: uint) \<noteq> - 1 \<Longrightarrow> x + 1 \<noteq> 0"
proof
  assume "x \<noteq> - 1" and "x + 1 = 0"
  from this(2) have "x + 1 - 1 = 0 - 1"
    by (simp only:)
  then have "x = - 1"
    by simp
  with \<open>x \<noteq> - 1\<close> show False
    by simp
qed

lemma bget_hit_effect:
  assumes inv: "cinv N L s" and out: "v \<notin> members L" and pool: "v \<in> Buf ` {..<N}"
    and free: "\<not> locked (lk s v)"
  shows "\<exists>s'. bget_hit me s v = Inr (v, s') \<and> cinv N L s' \<and> same_lru s s' \<and> same_chains s s' \<and>
     idt s' = idt s \<and> rc s' = (rc s)(v := rc s v + 1) \<and> pay s' = pay s \<and>
     lk s' = (lk s)(v := \<lparr>locked = True, pid = me\<rparr>) \<and>
     disk s' = disk s \<and> disk_reads s' = disk_reads s \<and> disk_writes s' = disk_writes s"
proof -
  let ?s1 = "upd s v (\<lambda>x. x\<lparr>refcnt := refcnt x + 1\<rparr>)"
  have m1: "same_lru s ?s1" "same_chains s ?s1" "idt ?s1 = idt s"
    "rc ?s1 = (rc s)(v := rc s v + 1)" "pay ?s1 = pay s" "lk ?s1 = lk s"
    "disk ?s1 = disk s" "disk_reads ?s1 = disk_reads s" "disk_writes ?s1 = disk_writes s"
    by (auto simp: same_lru_def same_chains_def proj_defs obj_upd fun_eq_iff)
  have "\<not> locked (lk ?s1 v)"
    using free by (simp add: m1)
  then obtain s2 where s2: "acquiresleep me ?s1 v = Inr s2" "same_lru ?s1 s2"
    "same_chains ?s1 s2" "idt s2 = idt ?s1" "rc s2 = rc ?s1" "pay s2 = pay ?s1"
    "lk s2 = (lk ?s1)(v := \<lparr>locked = True, pid = me\<rparr>)"
    "disk s2 = disk ?s1" "disk_reads s2 = disk_reads ?s1" "disk_writes s2 = disk_writes ?s1"
    using acquiresleep_effect [of ?s1 v me] by blast
  have res: "bget_hit me s v = Inr (v, s2)"
    by (simp add: bget_hit_def s2(1))
  have sl: "same_lru s s2" and sc: "same_chains s s2"
    using m1(1,2) s2(2,3) by (blast intro: same_lru_trans same_chains_trans)+
  have l2: "lru_ok N L s2"
    using cinvD(1) [OF inv] sl by (rule lru_ok_frame)
  have r2: "free_ok N L s2"
    using cinvD(2) [OF inv] out unfolding free_ok_def
    by (auto simp: s2 m1)
  have c2: "chain_ok L s2 j" if "j < NBUCKETS" for j
    using cinvD(3) [OF inv that] sc by (rule chain_ok_same) (simp_all add: s2 m1)
  have p2: "pool_ok N s2"
    using cinvD(4) [OF inv] sc
  proof (rule pool_ok_same)
    show "a \<in> Buf ` {..<N} \<or> locked (lk s a)" if "locked (lk s2 a)" for a
      using that pool by (auto simp: s2 m1 split: if_splits)
  qed
  have "cinv N L s2"
    unfolding cinv_def using l2 r2 c2 p2 by blast
  then show ?thesis
    using res sl sc by (simp add: s2 m1)
qed

section \<open>What \<open>brelse\<close>, \<open>bpin\<close> and \<open>bunpin\<close> do\<close>

lemma members_pool:
  assumes "lru_ok N L s" and "a \<in> members L"
  shows "\<exists>b<N. a = Buf b"
  using assms lru_okD(2) [OF assms(1)] unfolding members_iff by blast

lemma locked_out:
  assumes "cinv N L s" and "locked (lk s a)"
  shows "a \<notin> members L"
proof
  assume m: "a \<in> members L"
  then obtain b where "b < N" "a = Buf b"
    using members_pool [OF cinvD(1) [OF assms(1)]] by blast
  then show False
    using cinvD(2) [OF assms(1)] m assms(2) unfolding free_ok_def by blast
qed

lemma held_out:
  assumes "cinv N L s" and "holdingsleep me s a"
  shows "a \<notin> members L" and "\<exists>b<N. a = Buf b"
proof -
  have l: "locked (lk s a)"
    using assms(2) by (simp add: holdingsleep_def lk_def)
  then show "a \<notin> members L"
    using assms(1) by (intro locked_out)
  show "\<exists>b<N. a = Buf b"
    using pool_okD(2) [OF cinvD(4) [OF assms(1)] l] by blast
qed


lemma releasesleep_frame [simp]:
  "elems (releasesleep s b) = elems s" "disk (releasesleep s b) = disk s"
  "disk_reads (releasesleep s b) = disk_reads s" "disk_writes (releasesleep s b) = disk_writes s"
  by (simp_all add: releasesleep_def)

lemma release_decrement_effect:
  fixes s b
  defines "s2 \<equiv> upd (releasesleep s b) b (\<lambda>x. x\<lparr>refcnt := refcnt x - 1\<rparr>)"
  shows "same_lru s s2" "same_chains s s2" "idt s2 = idt s" "rc s2 = (rc s)(b := rc s b - 1)"
    "pay s2 = pay s" "lk s2 = (lk s)(b := \<lparr>locked = False, pid = 0\<rparr>)"
    "disk s2 = disk s" "disk_reads s2 = disk_reads s" "disk_writes s2 = disk_writes s"
    "blockno (obj (releasesleep s b) b) = snd (idt s b)"
  unfolding s2_def
  by (auto simp: releasesleep_def same_lru_def same_chains_def proj_defs obj_upd fun_eq_iff)

lemma brelse_keep_effect:
  assumes inv: "cinv N L s" and b: "b < N" and hold: "holdingsleep me s (Buf b)"
    and more: "rc s (Buf b) \<noteq> 1"
  shows "\<exists>s'. brelse me s (Buf b) = Inr s' \<and> cinv N L s' \<and> same_lru s s' \<and> same_chains s s' \<and>
     idt s' = idt s \<and> rc s' = (rc s)(Buf b := rc s (Buf b) - 1) \<and> pay s' = pay s \<and>
     lk s' = (lk s)(Buf b := \<lparr>locked = False, pid = 0\<rparr>) \<and>
     disk s' = disk s \<and> disk_reads s' = disk_reads s \<and> disk_writes s' = disk_writes s"
proof -
  let ?s2 = "upd (releasesleep s (Buf b)) (Buf b) (\<lambda>x. x\<lparr>refcnt := refcnt x - 1\<rparr>)"
  note e = release_decrement_effect [of s "Buf b"]
  note h = held_out(1) [OF inv hold]
  have nz: "rc s (Buf b) - 1 \<noteq> 0"
    using more by simp
  then have "refcnt (obj ?s2 (Buf b)) \<noteq> 0"
    using e(4) by (simp add: rc_def fun_eq_iff)
  then have res: "brelse me s (Buf b) = Inr ?s2"
    using hold by (simp add: brelse_def Let_def)
  have l2: "lru_ok N L ?s2"
    using cinvD(1) [OF inv] e(1) by (rule lru_ok_frame)
  have r2: "free_ok N L ?s2"
    using cinvD(2) [OF inv] h unfolding free_ok_def by (auto simp: e)
  have c2: "chain_ok L ?s2 j" if "j < NBUCKETS" for j
    using cinvD(3) [OF inv that] e(2) by (rule chain_ok_same) (simp_all add: e)
  have p2: "pool_ok N ?s2"
    using cinvD(4) [OF inv] e(2)
  proof (rule pool_ok_same)
    show "a \<in> Buf ` {..<N} \<or> locked (lk s a)" if "locked (lk ?s2 a)" for a
      using that by (auto simp: e split: if_splits)
  qed
  have "cinv N L ?s2"
    unfolding cinv_def using l2 r2 c2 p2 by blast
  then show ?thesis
    using res e by simp
qed

lemma brelse_last_effect:
  assumes inv: "cinv N L s" and b: "b < N" and hold: "holdingsleep me s (Buf b)"
    and one: "rc s (Buf b) = 1"
  shows "\<exists>s'. brelse me s (Buf b) = Inr s' \<and>
     cinv N (L(bucket (snd (idt s (Buf b))) := L (bucket (snd (idt s (Buf b)))) @ [Buf b])) s' \<and>
     btable_find s' (fst (idt s (Buf b))) (snd (idt s (Buf b))) = Inr None \<and>
     idt s' = idt s \<and> rc s' = (rc s)(Buf b := 0) \<and> pay s' = pay s \<and>
     lk s' = (lk s)(Buf b := \<lparr>locked = False, pid = 0\<rparr>) \<and>
     disk s' = disk s \<and> disk_reads s' = disk_reads s \<and> disk_writes s' = disk_writes s"
proof -
  let ?b = "Buf b"
  let ?i = "bucket (snd (idt s ?b))"
  let ?L' = "L(?i := L ?i @ [?b])"
  let ?s2 = "upd (releasesleep s ?b) ?b (\<lambda>x. x\<lparr>refcnt := refcnt x - 1\<rparr>)"
  note e = release_decrement_effect [of s ?b]
  note h = held_out(1) [OF inv hold]
  note i = bucket_less [of "snd (idt s ?b)"]
  have z: "refcnt (obj ?s2 ?b) = 0"
    using e(4) one by (simp add: rc_def fun_eq_iff)
  have l2: "lru_ok N L ?s2"
    using cinvD(1) [OF inv] e(1) by (rule lru_ok_frame)
  obtain s3 where s3: "lru_add ?s2 ?b (Head ?i) = Inr s3" "lru_ok N ?L' s3"
    "same_chains ?s2 s3" "same_meta ?s2 s3"
    using lru_ok_add [OF l2 i b h] by blast
  have m3: "idt s3 = idt s" "rc s3 = (rc s)(?b := 0)" "pay s3 = pay s"
    "lk s3 = (lk s)(?b := \<lparr>locked = False, pid = 0\<rparr>)"
    "disk s3 = disk s" "disk_reads s3 = disk_reads s" "disk_writes s3 = disk_writes s"
    using s3(4) one by (simp_all add: same_meta_def e)
  have sc3: "same_chains s s3"
    using e(2) s3(3) by (rule same_chains_trans)
  obtain C where C: "chain s ?i C"
    using cinv_chain [OF inv i] by blast
  then have "chain s3 (bucket (snd (idt s3 ?b))) C"
    by (simp add: same_chains_chain [OF sc3] m3)
  then obtain s4 where s4: "btable_remove s3 ?b = Inr s4" "same_lru s3 s4" "same_meta s3 s4"
    "\<forall>j ys. chain s3 j ys \<longrightarrow>
        (\<exists>zs. chain s4 j zs \<and> set zs \<subseteq> set ys \<and>
           (j = bucket (snd (idt s3 ?b)) \<longrightarrow>
              (\<forall>m. List.find (\<lambda>a. idt s3 a = idt s3 ?b) ys = Some m \<longrightarrow> m \<notin> set zs)))"
    using btable_remove_effect [of s3 ?b C] by blast
  have m4: "idt s4 = idt s" "rc s4 = (rc s)(?b := 0)" "pay s4 = pay s"
    "lk s4 = (lk s)(?b := \<lparr>locked = False, pid = 0\<rparr>)"
    "disk s4 = disk s" "disk_reads s4 = disk_reads s" "disk_writes s4 = disk_writes s"
    using s4(3) by (simp_all add: same_meta_def m3)
  have res: "brelse me s ?b = Inr s4"
    using hold z s3(1) s4(1) by (simp add: brelse_def Let_def e(10))
  have mem: "members ?L' = insert ?b (members L)"
    using i by (rule members_add)
  have l4: "lru_ok N ?L' s4"
    using s3(2) s4(2) by (rule lru_ok_frame)
  have r4: "free_ok N ?L' s4"
    using cinvD(2) [OF inv] unfolding free_ok_def by (auto simp: mem m4)
  have step: "\<exists>zs. chain s4 j zs \<and> set zs \<subseteq> set ys \<and>
        (j = ?i \<longrightarrow> (\<forall>m. List.find (\<lambda>a. idt s a = idt s ?b) ys = Some m \<longrightarrow> m \<notin> set zs))"
    if "chain s j ys" for j ys
  proof -
    have "chain s3 j ys"
      using that by (simp add: same_chains_chain [OF sc3])
    then show ?thesis
      using s4(4) by (simp add: m3)
  qed
  have c4: "chain_ok ?L' s4 j" if j: "j < NBUCKETS" for j
    using cinvD(3) [OF inv j] step by (rule chain_ok_release) (simp_all add: m4 mem)
  have p4: "pool_ok N s4"
  proof (rule pool_ok_step [OF cinvD(4) [OF inv], of s4 ?b])
    show "\<exists>ys. chain s j ys" if "j < NBUCKETS" for j
      using cinv_chain [OF inv that] .
    show "\<exists>zs. chain s4 j zs \<and> set zs \<subseteq> insert ?b (set ys)" if "chain s j ys" for j ys
      using step [OF that] by blast
    show "?b \<in> Buf ` {..<N}"
      using b by simp
    show "a = ?b \<or> locked (lk s a)" if "locked (lk s4 a)" for a
      using that by (auto simp: m4 split: if_splits)
  qed
  have "cinv N ?L' s4"
    unfolding cinv_def using l4 r4 c4 p4 by blast
  moreover have "btable_find s4 (fst (idt s ?b)) (snd (idt s ?b)) = Inr None"
  proof -
    obtain xs where xs: "chain s ?i xs"
      and U: "\<forall>x\<in>set xs. \<forall>y\<in>set xs. idt s x = idt s y \<and> bucket (snd (idt s x)) = ?i \<longrightarrow> x = y"
      using cinvD(3) [OF inv i] unfolding chain_ok_def by blast
    obtain zs where zs: "chain s4 ?i zs" "set zs \<subseteq> set xs"
      "\<forall>m. List.find (\<lambda>a. idt s a = idt s ?b) xs = Some m \<longrightarrow> m \<notin> set zs"
      using step [OF xs] by blast
    have "idt s a \<noteq> idt s ?b" if a: "a \<in> set zs" for a
    proof
      assume eq: "idt s a = idt s ?b"
      then have "\<exists>x\<in>set xs. idt s x = idt s ?b"
        using a zs(2) by blast
      then obtain m where m: "List.find (\<lambda>a. idt s a = idt s ?b) xs = Some m"
        by (cases "List.find (\<lambda>a. idt s a = idt s ?b) xs") (auto simp: find_None_iff)
      then have "m \<in> set xs" "idt s m = idt s ?b"
        by (auto simp: find_Some_iff)
      then have "m = a"
        using U a zs(2) eq by (metis subsetD)
      then show False
        using zs(3) m a by blast
    qed
    then have "List.find (\<lambda>a. idt s4 a = (fst (idt s ?b), snd (idt s ?b))) zs = None"
      by (simp add: find_None_iff m4)
    then show ?thesis
      using btable_find_chain [OF zs(1), of "fst (idt s ?b)"] by simp
  qed
  ultimately show ?thesis
    using res by (simp add: m4)
qed

lemma count_effect:
  assumes inv: "cinv N L s"
  shows "cinv N L (upd s a (\<lambda>x. x\<lparr>refcnt := f (refcnt x)\<rparr>))"
proof -
  let ?s1 = "upd s a (\<lambda>x. x\<lparr>refcnt := f (refcnt x)\<rparr>)"
  have m1: "same_lru s ?s1" "same_chains s ?s1" "idt ?s1 = idt s" "lk ?s1 = lk s"
    by (auto simp: same_lru_def same_chains_def proj_defs obj_upd fun_eq_iff)
  have l: "lru_ok N L ?s1"
    using cinvD(1) [OF inv] m1(1) by (rule lru_ok_frame)
  have r: "free_ok N L ?s1"
    using cinvD(2) [OF inv] unfolding free_ok_def by (simp add: m1)
  have c: "chain_ok L ?s1 j" if "j < NBUCKETS" for j
    using cinvD(3) [OF inv that] m1(2) by (rule chain_ok_same) (simp_all add: m1)
  have p: "pool_ok N ?s1"
    using cinvD(4) [OF inv] m1(2) by (rule pool_ok_same) (simp add: m1)
  show ?thesis
    unfolding cinv_def using l r c p by blast
qed

lemma pin_effect: "cinv N L s \<Longrightarrow> cinv N L (bpin s a)"
  unfolding bpin_def by (rule count_effect)

lemma unpin_effect: "cinv N L s \<Longrightarrow> cinv N L (bunpin s a)"
  unfolding bunpin_def by (rule count_effect)

section \<open>\<open>bget\<close> as a whole, and the lists read off the store\<close>

lemma lru_empty_test:
  assumes "lru_ok N L s" and "i < NBUCKETS"
  shows "next (lrus s i) = Some (Head i) \<longleftrightarrow> L i = []"
  using ring_empty_iff [OF lru_okD(1) [OF assms]] by (simp add: nx_def obj_Head)

lemma bget_scan_steals:
  assumes inv: "cinv N L s" and miss: "btable_find s d bn = Inr None"
    and js: "set js \<subseteq> {..<NBUCKETS}" and res: "bget_scan me s d bn js = Inr (v, s')"
  shows "\<exists>j xs. j < NBUCKETS \<and> L j = v # xs \<and> bget_steal me s d bn j = Inr (v, s')"
  using js res
proof (induction js)
  case Nil
  then show ?case by simp
next
  case (Cons i rest)
  then have i: "i < NBUCKETS"
    by simp
  note t = lru_empty_test [OF cinvD(1) [OF inv] i]
  consider "i = bucket bn" | "i \<noteq> bucket bn" "L i = []" | "i \<noteq> bucket bn" "L i \<noteq> []"
    by blast
  then show ?case
  proof cases
    case 1
    then have "bget_scan me s d bn rest = Inr (v, s')"
      using Cons.prems(2) by simp
    then show ?thesis
      using Cons by simp
  next
    case 2
    then have "bget_scan me s d bn rest = Inr (v, s')"
      using Cons.prems(2) miss t by simp
    then show ?thesis
      using Cons by simp
  next
    case 3
    then obtain w xs where Li: "L i = w # xs"
      by (cases "L i") auto
    have st: "bget_steal me s d bn i = Inr (v, s')"
      using Cons.prems(2) miss 3 t by simp
    moreover have "w = v"
      using bget_steal_effect [OF inv miss i Li, of me] st by auto
    ultimately show ?thesis
      using i Li by blast
  qed
qed

lemma bget_miss_effect:
  assumes inv: "cinv N L s" and miss: "btable_find s d bn = Inr None"
    and res: "bget me s d bn = Inr (v, s')"
  shows "\<exists>j xs. j < NBUCKETS \<and> L j = v # xs \<and> cinv N (L(j := xs)) s' \<and>
     idt s' = (idt s)(v := (d, bn)) \<and> rc s' = (rc s)(v := 1) \<and>
     pay s' = (pay s)(v := (False, snd (pay s v))) \<and>
     lk s' = (lk s)(v := \<lparr>locked = True, pid = me\<rparr>) \<and>
     disk s' = disk s \<and> disk_reads s' = disk_reads s \<and> disk_writes s' = disk_writes s"
proof (cases "L (bucket bn)")
  case Nil
  then have "bget me s d bn = bget_scan me s d bn [0..<NBUCKETS]"
    using miss lru_empty_test [OF cinvD(1) [OF inv] bucket_less, of bn] by (simp add: bget_def)
  moreover have "set [0..<NBUCKETS] \<subseteq> {..<NBUCKETS}"
    by auto
  ultimately obtain j xs where j: "j < NBUCKETS" "L j = v # xs"
    "bget_steal me s d bn j = Inr (v, s')"
    using bget_scan_steals [OF inv miss, of "[0..<NBUCKETS]" me v s'] res by auto
  show ?thesis
    using bget_steal_effect [OF inv miss j(1,2), of me] j by auto
next
  case (Cons w xs)
  then have "bget me s d bn = bget_local me s d bn"
    using miss lru_empty_test [OF cinvD(1) [OF inv] bucket_less, of bn] by (simp add: bget_def)
  then have loc: "bget_local me s d bn = Inr (v, s')"
    using res by simp
  then have "w = v"
    using bget_local_effect [OF inv miss Cons, of me] by auto
  then show ?thesis
    using bget_local_effect [OF inv miss Cons, of me] loc Cons bucket_less [of bn] by auto
qed

lemma bget_found_effect:
  assumes inv: "cinv N L s" and found: "btable_find s d bn = Inr (Some w)"
    and res: "bget me s d bn = Inr (v, s')"
  shows "v = w \<and> cinv N L s' \<and> same_lru s s' \<and> same_chains s s' \<and>
     idt s' = idt s \<and> rc s' = (rc s)(v := rc s v + 1) \<and> pay s' = pay s \<and>
     lk s' = (lk s)(v := \<lparr>locked = True, pid = me\<rparr>) \<and>
     disk s' = disk s \<and> disk_reads s' = disk_reads s \<and> disk_writes s' = disk_writes s"
proof -
  have hit: "bget_hit me s w = Inr (v, s')"
    using res found by (simp add: bget_def)
  have free: "\<not> locked (lk s w)"
  proof
    assume "locked (lk s w)"
    then have "bget_hit me s w = Inl Sleeps"
      by (simp add: bget_hit_def acquiresleep_def lk_def obj_upd)
    with hit show False
      by simp
  qed
  show ?thesis
    using bget_hit_effect [OF inv found_facts(2,3) [OF inv found] free, of me] hit by auto
qed




section \<open>\<open>binit\<close> establishes the invariant\<close>

lemma deal_Suc: "deal (Suc k) = (deal k)(k mod NBUCKETS := deal k (k mod NBUCKETS) @ [Buf k])"
  by (auto simp: deal_def fun_eq_iff)

lemma deal_members: "b < n \<Longrightarrow> Buf b \<in> members (deal n)"
  unfolding members_iff
  by (intro exI [of _ "b mod NBUCKETS"]) (simp add: deal_def NBUCKETS_def)

lemma deal_bound: "set (deal n i) \<subseteq> Buf ` {..<n}"
  by (auto simp: deal_def)

lemma obj_boot: "obj (boot dk) a = zero_buf"
  by (cases a) (simp_all add: boot_def obj.simps)

lemma binit_heads_effect:
  "nx (binit_heads n s) =
     (\<lambda>a. case a of Head i \<Rightarrow> if i < n then Some (Head i) else nx s a | Buf b \<Rightarrow> nx s a)"
  "pv (binit_heads n s) =
     (\<lambda>a. case a of Head i \<Rightarrow> if i < n then Some (Head i) else pv s a | Buf b \<Rightarrow> pv s a)"
  "nh (binit_heads n s) = nh s" "elems (binit_heads n s) = elems s"
  "rc (binit_heads n s) = rc s" "lk (binit_heads n s) = lk s" "idt (binit_heads n s) = idt s"
  "pay (binit_heads n s) = pay s" "disk (binit_heads n s) = disk s"
  "disk_reads (binit_heads n s) = disk_reads s" "disk_writes (binit_heads n s) = disk_writes s"
  by (induction n; auto simp: proj_defs obj_upd fun_eq_iff less_Suc_eq split: addr.splits)+

lemma chain_ok_empty: "elems s i = None \<Longrightarrow> chain_ok L s i"
  unfolding chain_ok_def chain_def by (intro exI [of _ "[]"]) simp

lemma lru_ok_mono: "lru_ok n L s \<Longrightarrow> lru_ok (Suc n) L s"
  unfolding lru_ok_def using lessThan_Suc [of n] by (auto simp del: lessThan_Suc)

lemma chain_empty: "elems s i = None \<Longrightarrow> chain s i xs \<Longrightarrow> xs = []"
  unfolding chain_def by (cases xs) simp_all

lemma fresh_cinv:
  assumes "fresh k s"
  shows "cinv k (deal k) s" and "idle_ok k (deal k) s" and "full_ok k (deal k) s"
proof -
  have "xs = []" if "chain s i xs" for i xs
    using assms that by (intro chain_empty [of s i]) (simp_all add: fresh_def)
  then have "pool_ok k s"
    unfolding pool_ok_def using assms by (fastforce simp: fresh_def)
  then show "cinv k (deal k) s"
    unfolding cinv_def free_ok_def using assms
    by (auto simp: fresh_def chain_ok_empty)
  show "idle_ok k (deal k) s"
    unfolding idle_ok_def using assms by (auto simp: fresh_def)
  show "full_ok k (deal k) s"
    unfolding full_ok_def using assms by (auto simp: fresh_def deal_members)
qed

lemma fresh_heads: "fresh 0 (binit_heads NBUCKETS (boot dk))"
proof -
  let ?s = "binit_heads NBUCKETS (boot dk)"
  have "ring ?s i []" if "i < NBUCKETS" for i
    using that by (simp add: ring_def binit_heads_effect)
  then have "lru_ok 0 (deal 0) ?s"
    by (intro lru_okI) (simp_all add: deal_def)
  moreover have "elems (boot dk) i = None" for i
    by (simp add: boot_def)
  ultimately show ?thesis
    by (simp add: fresh_def binit_heads_effect proj_defs obj_boot zero_buf_def)
qed

lemma fresh_step:
  assumes "fresh k s"
  shows "\<exists>s'. lru_add s (Buf k) (Head (k mod NBUCKETS)) = Inr s' \<and> fresh (Suc k) s' \<and>
           disk s' = disk s \<and> disk_reads s' = disk_reads s \<and> disk_writes s' = disk_writes s"
proof -
  have ok: "lru_ok (Suc k) (deal k) s"
    using assms by (simp add: fresh_def lru_ok_mono)
  have i: "k mod NBUCKETS < NBUCKETS"
    by (simp add: NBUCKETS_def)
  have "Buf k \<notin> members (deal k)"
    using deal_bound [of k] by (auto simp: members_iff)
  then obtain s' where s': "lru_add s (Buf k) (Head (k mod NBUCKETS)) = Inr s'"
    "lru_ok (Suc k) ((deal k)(k mod NBUCKETS := deal k (k mod NBUCKETS) @ [Buf k])) s'"
    "same_chains s s'" "same_meta s s'"
    using lru_ok_add [OF ok i, of k] by auto
  have "fresh (Suc k) s'"
    using assms s'(2,3,4) by (simp add: fresh_def deal_Suc same_chains_def same_meta_def)
  then show ?thesis
    using s'(1,4) by (simp add: same_meta_def)
qed

lemma binit_bufs_fresh:
  assumes "fresh 0 s"
  shows "\<exists>s'. binit_bufs k s = Inr s' \<and> fresh k s' \<and>
           disk s' = disk s \<and> disk_reads s' = disk_reads s \<and> disk_writes s' = disk_writes s"
proof (induction k)
  case 0
  then show ?case
    using assms by simp
next
  case (Suc k)
  then obtain s1 where s1: "binit_bufs k s = Inr s1" "fresh k s1"
    "disk s1 = disk s" "disk_reads s1 = disk_reads s" "disk_writes s1 = disk_writes s"
    by blast
  obtain s2 where "lru_add s1 (Buf k) (Head (k mod NBUCKETS)) = Inr s2" "fresh (Suc k) s2"
    "disk s2 = disk s1" "disk_reads s2 = disk_reads s1" "disk_writes s2 = disk_writes s1"
    using fresh_step [OF s1(2)] by blast
  then show ?case
    using s1 by simp
qed

lemma binit_cinv:
  "\<exists>s. binit N (boot dk) = Inr s \<and> cinv N (deal N) s \<and> idle_ok N (deal N) s \<and>
       full_ok N (deal N) s \<and>
       disk s = dk \<and> disk_reads s = 0 \<and> (\<forall>a. rc s a = 0)"
proof -
  obtain s where s: "binit_bufs N (binit_heads NBUCKETS (boot dk)) = Inr s" "fresh N s"
    "disk s = disk (binit_heads NBUCKETS (boot dk))"
    "disk_reads s = disk_reads (binit_heads NBUCKETS (boot dk))"
    using binit_bufs_fresh [OF fresh_heads] by blast
  then show ?thesis
    using fresh_cinv [OF s(2)] by (simp add: binit_def binit_heads_effect boot_def fresh_def)
qed

section \<open>Every run keeps the invariant\<close>

lemma obj_disk_update [simp]:
  "obj (s\<lparr>disk := e\<rparr>) a = obj s a" "obj (s\<lparr>disk_reads := k\<rparr>) a = obj s a"
  "obj (s\<lparr>disk_writes := k\<rparr>) a = obj s a"
  by (cases a; simp add: obj_Buf obj_Head)+

lemma cinv_frame:
  assumes inv: "cinv N L s" and f: "same_lru s s'" "same_chains s s'"
    "idt s' = idt s" "rc s' = rc s" "lk s' = lk s"
  shows "cinv N L s'"
proof -
  have l: "lru_ok N L s'"
    using cinvD(1) [OF inv] f(1) by (rule lru_ok_frame)
  have r: "free_ok N L s'"
    using cinvD(2) [OF inv] unfolding free_ok_def f by blast
  have p: "pool_ok N s'"
    using cinvD(4) [OF inv] f(2) by (rule pool_ok_same) (simp add: f)
  have c: "chain_ok L s' j" if "j < NBUCKETS" for j
    using cinvD(3) [OF inv that] f(2) by (rule chain_ok_same) (simp_all add: f)
  show ?thesis
    unfolding cinv_def using l r c p by blast
qed

lemma full_frame:
  assumes "full_ok N L s" and "rc s' = rc s" and "lk s' = lk s"
  shows "full_ok N L s'"
  using assms unfolding full_ok_def by simp

lemma payload_frame:
  fixes s b f
  assumes "\<And>x. next (f x) = next x" "\<And>x. prev (f x) = prev x" "\<And>x. next_hash (f x) = next_hash x"
    "\<And>x. dev (f x) = dev x" "\<And>x. blockno (f x) = blockno x" "\<And>x. refcnt (f x) = refcnt x"
    "\<And>x. lock (f x) = lock x"
  shows "same_lru s (upd s b f)" "same_chains s (upd s b f)" "idt (upd s b f) = idt s"
    "rc (upd s b f) = rc s" "lk (upd s b f) = lk s"
  using assms by (auto simp: same_lru_def same_chains_def proj_defs obj_upd fun_eq_iff)

lemma disk_frame:
  "same_lru s (s\<lparr>disk := e, disk_writes := k\<rparr>)" "same_chains s (s\<lparr>disk := e, disk_writes := k\<rparr>)"
  "idt (s\<lparr>disk := e, disk_writes := k\<rparr>) = idt s" "rc (s\<lparr>disk := e, disk_writes := k\<rparr>) = rc s"
  "lk (s\<lparr>disk := e, disk_writes := k\<rparr>) = lk s" "pay (s\<lparr>disk := e, disk_writes := k\<rparr>) = pay s"
  "same_lru s (s\<lparr>disk_reads := k\<rparr>)" "same_chains s (s\<lparr>disk_reads := k\<rparr>)"
  "idt (s\<lparr>disk_reads := k\<rparr>) = idt s" "rc (s\<lparr>disk_reads := k\<rparr>) = rc s"
  "lk (s\<lparr>disk_reads := k\<rparr>) = lk s" "pay (s\<lparr>disk_reads := k\<rparr>) = pay s"
  by (auto simp: same_lru_def same_chains_def proj_defs fun_eq_iff)

lemma fill_inv: "cinv N L s \<Longrightarrow> cinv N L (upd s b (\<lambda>x. x\<lparr>data := v\<rparr>))"
  by (erule cinv_frame; rule payload_frame; simp)

lemma validate_inv: "cinv N L s \<Longrightarrow> cinv N L (upd s b (\<lambda>x. x\<lparr>valid := True\<rparr>))"
  by (erule cinv_frame; rule payload_frame; simp)

lemma disk_write_inv: "cinv N L s \<Longrightarrow> cinv N L (virtio_disk_rw s d b True)"
  unfolding virtio_disk_rw_def by (simp, erule cinv_frame) (rule disk_frame)+

lemma disk_read_inv: "cinv N L s \<Longrightarrow> cinv N L (virtio_disk_rw s d b False)"
proof -
  assume "cinv N L s"
  then have "cinv N L (upd s b (\<lambda>x. x\<lparr>data := disk s (d, blockno (obj s b))\<rparr>))"
    by (rule fill_inv)
  then have "cinv N L ((upd s b (\<lambda>x. x\<lparr>data := disk s (d, blockno (obj s b))\<rparr>))
      \<lparr>disk_reads := Suc (disk_reads s)\<rparr>)"
    by (rule cinv_frame) (rule disk_frame)+
  then show ?thesis
    by (simp add: virtio_disk_rw_def)
qed

lemma fill_full: "full_ok N L s \<Longrightarrow> full_ok N L (upd s b (\<lambda>x. x\<lparr>data := v\<rparr>))"
  by (erule full_frame; rule payload_frame; simp)

lemma validate_full: "full_ok N L s \<Longrightarrow> full_ok N L (upd s b (\<lambda>x. x\<lparr>valid := True\<rparr>))"
  by (erule full_frame; rule payload_frame; simp)

lemma disk_write_full: "full_ok N L s \<Longrightarrow> full_ok N L (virtio_disk_rw s d b True)"
  unfolding virtio_disk_rw_def by (simp, erule full_frame) (rule disk_frame)+

lemma disk_read_full: "full_ok N L s \<Longrightarrow> full_ok N L (virtio_disk_rw s d b False)"
proof -
  assume "full_ok N L s"
  then have "full_ok N L (upd s b (\<lambda>x. x\<lparr>data := disk s (d, blockno (obj s b))\<rparr>))"
    by (rule fill_full)
  then have "full_ok N L ((upd s b (\<lambda>x. x\<lparr>data := disk s (d, blockno (obj s b))\<rparr>))
      \<lparr>disk_reads := Suc (disk_reads s)\<rparr>)"
    by (rule full_frame) (rule disk_frame)+
  then show ?thesis
    by (simp add: virtio_disk_rw_def)
qed

lemma idle_frame:
  assumes "idle_ok N L s" and "rc s' = rc s" and "lk s' = lk s"
  shows "idle_ok N L s'"
  using assms unfolding idle_ok_def by simp

lemma fill_idle: "idle_ok N L s \<Longrightarrow> idle_ok N L (upd s b (\<lambda>x. x\<lparr>data := v\<rparr>))"
  by (erule idle_frame; rule payload_frame; simp)

lemma validate_idle: "idle_ok N L s \<Longrightarrow> idle_ok N L (upd s b (\<lambda>x. x\<lparr>valid := True\<rparr>))"
  by (erule idle_frame; rule payload_frame; simp)

lemma disk_write_idle: "idle_ok N L s \<Longrightarrow> idle_ok N L (virtio_disk_rw s d b True)"
  unfolding virtio_disk_rw_def by (simp, erule idle_frame) (rule disk_frame)+

lemma disk_read_idle: "idle_ok N L s \<Longrightarrow> idle_ok N L (virtio_disk_rw s d b False)"
proof -
  assume "idle_ok N L s"
  then have "idle_ok N L (upd s b (\<lambda>x. x\<lparr>data := disk s (d, blockno (obj s b))\<rparr>))"
    by (rule fill_idle)
  then have "idle_ok N L ((upd s b (\<lambda>x. x\<lparr>data := disk s (d, blockno (obj s b))\<rparr>))
      \<lparr>disk_reads := Suc (disk_reads s)\<rparr>)"
    by (rule idle_frame) (rule disk_frame)+
  then show ?thesis
    by (simp add: virtio_disk_rw_def)
qed

lemma referenced_out:
  assumes "lru_ok N L s" and "idle_ok N L s" and "rc s a \<noteq> 0"
  shows "a \<notin> members L"
proof
  assume m: "a \<in> members L"
  then obtain b where "b < N" "a = Buf b"
    using members_pool [OF assms(1)] by blast
  then show False
    using assms(2,3) m unfolding idle_ok_def by blast
qed

lemma bget_inv:
  assumes L: "cinv N L s" and res: "bget me s d bn = Inr (v, s')"
  shows "\<exists>L'. cinv N L' s' \<and> (idle_ok N L s \<longrightarrow> idle_ok N L' s') \<and>
           (full_ok N L s \<and> counted s (Bget me d bn) \<longrightarrow> full_ok N L' s')"
proof -
  obtain r where r: "btable_find s d bn = Inr r"
    using lookup_total [OF L] by blast
  show ?thesis
  proof (cases r)
    case None
    then obtain j xs where e: "j < NBUCKETS" "L j = v # xs" "cinv N (L(j := xs)) s'"
      "rc s' = (rc s)(v := 1)" "lk s' = (lk s)(v := \<lparr>locked = True, pid = me\<rparr>)"
      using bget_miss_effect [OF L _ res] r by blast
    have mem: "members (L(j := xs)) = members L - {v}"
      using cinvD(1) [OF L] e(1,2) by (rule members_remove_hd)
    have "idle_ok N (L(j := xs)) s'" if "idle_ok N L s"
      using that unfolding idle_ok_def by (auto simp: e mem)
    moreover have "full_ok N (L(j := xs)) s'" if "full_ok N L s"
      using that unfolding full_ok_def by (auto simp: e mem)
    ultimately show ?thesis
      using e(3) by blast
  next
    case (Some w)
    then have e: "v = w" "cinv N L s'" "rc s' = (rc s)(v := rc s v + 1)"
      "lk s' = (lk s)(v := \<lparr>locked = True, pid = me\<rparr>)"
      using bget_found_effect [OF L _ res, of w] r by auto
    have out: "v \<notin> members L"
      using found_facts(2) [OF L] r Some e(1) by simp
    have "idle_ok N L s'" if "idle_ok N L s"
      using that out unfolding idle_ok_def by (auto simp: e)
    moreover have "full_ok N L s'" if "full_ok N L s" "counted s (Bget me d bn)"
    proof -
      have "rc s v + 1 \<noteq> 0"
        using that(2) r Some e(1) by (intro word_succ_nonzero) (simp add: rc_def)
      then show ?thesis
        using that(1) unfolding full_ok_def by (auto simp: e)
    qed
    ultimately show ?thesis
      using e(2) by blast
  qed
qed

lemma bread_inv:
  assumes L: "cinv N L s" and res: "bread me s d bn = Inr (v, s')"
  shows "\<exists>L'. cinv N L' s' \<and> (idle_ok N L s \<longrightarrow> idle_ok N L' s') \<and>
           (full_ok N L s \<and> counted s (Bread me d bn) \<longrightarrow> full_ok N L' s')"
proof -
  obtain w s1 where g: "bget me s d bn = Inr (w, s1)"
    using res by (cases "bget me s d bn") (auto simp: bread_def)
  obtain L' where L': "cinv N L' s1" "idle_ok N L s \<longrightarrow> idle_ok N L' s1"
    "full_ok N L s \<and> counted s (Bget me d bn) \<longrightarrow> full_ok N L' s1"
    using bget_inv [OF L g] by blast
  have "cinv N L' s'"
    using res g L'(1) by (auto simp: bread_def intro: validate_inv disk_read_inv split: if_splits)
  moreover have "idle_ok N L' s'" if "idle_ok N L' s1"
    using res g that
    by (auto simp: bread_def intro: validate_idle disk_read_idle split: if_splits)
  moreover have "full_ok N L' s'" if "full_ok N L' s1"
    using res g that
    by (auto simp: bread_def intro: validate_full disk_read_full split: if_splits)
  ultimately show ?thesis
    using L'(2,3) by auto
qed

lemma brelse_inv:
  assumes L: "cinv N L s" and res: "brelse me s a = Inr s'"
  shows "\<exists>L'. cinv N L' s' \<and> (idle_ok N L s \<longrightarrow> idle_ok N L' s') \<and>
           (full_ok N L s \<longrightarrow> full_ok N L' s')"
proof -
  have hold: "holdingsleep me s a"
    using res by (auto simp: brelse_def split: if_splits)
  then obtain b where b: "b < N" "a = Buf b"
    using held_out(2) [OF L] by blast
  note hb = hold [unfolded b(2)] and rb = res [unfolded b(2)]
  note out = held_out(1) [OF L hb]
  show ?thesis
  proof (cases "rc s (Buf b) = 1")
    case True
    let ?i = "bucket (snd (idt s (Buf b)))"
    have e: "cinv N (L(?i := L ?i @ [Buf b])) s'" "rc s' = (rc s)(Buf b := 0)"
      "lk s' = (lk s)(Buf b := \<lparr>locked = False, pid = 0\<rparr>)"
      using brelse_last_effect [OF L b(1) hb True] rb by auto
    have mem: "members (L(?i := L ?i @ [Buf b])) = insert (Buf b) (members L)"
      using bucket_less by (rule members_add)
    have "idle_ok N (L(?i := L ?i @ [Buf b])) s'" if "idle_ok N L s"
      using that unfolding idle_ok_def by (auto simp: e mem)
    moreover have "full_ok N (L(?i := L ?i @ [Buf b])) s'" if "full_ok N L s"
      using that unfolding full_ok_def by (auto simp: e mem)
    ultimately show ?thesis
      using e(1) by blast
  next
    case False
    have e: "cinv N L s'" "rc s' = (rc s)(Buf b := rc s (Buf b) - 1)"
      "lk s' = (lk s)(Buf b := \<lparr>locked = False, pid = 0\<rparr>)"
      using brelse_keep_effect [OF L b(1) hb False] rb by auto
    have "idle_ok N L s'" if "idle_ok N L s"
      using that out unfolding idle_ok_def by (auto simp: e)
    moreover have "rc s (Buf b) - 1 \<noteq> 0"
      using False by simp
    then have "full_ok N L s'" if "full_ok N L s"
      using that unfolding full_ok_def by (auto simp: e)
    ultimately show ?thesis
      using e(1) by blast
  qed
qed

lemma count_idle:
  assumes "lru_ok N L s" and "idle_ok N L s" and "rc s a \<noteq> 0"
  shows "idle_ok N L (upd s a (\<lambda>x. x\<lparr>refcnt := f (refcnt x)\<rparr>))"
proof -
  let ?s1 = "upd s a (\<lambda>x. x\<lparr>refcnt := f (refcnt x)\<rparr>)"
  have m1: "rc ?s1 = (rc s)(a := f (rc s a))"
    by (auto simp: proj_defs obj_upd fun_eq_iff)
  show ?thesis
    using assms(2) referenced_out [OF assms] unfolding idle_ok_def by (auto simp: m1)
qed

lemma count_full:
  assumes "full_ok N L s" and "f (rc s a) \<noteq> 0"
  shows "full_ok N L (upd s a (\<lambda>x. x\<lparr>refcnt := f (refcnt x)\<rparr>))"
proof -
  let ?s1 = "upd s a (\<lambda>x. x\<lparr>refcnt := f (refcnt x)\<rparr>)"
  have m1: "rc ?s1 = (rc s)(a := f (rc s a))" "lk ?s1 = lk s"
    by (auto simp: proj_defs obj_upd fun_eq_iff)
  show ?thesis
    using assms unfolding full_ok_def by (auto simp: m1)
qed

lemma step_inv:
  assumes L: "cinv N L s" and res: "step s x = Inr (e, s')"
  shows "\<exists>L'. cinv N L' s' \<and> (idle_ok N L s \<and> legal s x \<longrightarrow> idle_ok N L' s') \<and>
           (full_ok N L s \<and> counted s x \<longrightarrow> full_ok N L' s')"
proof (cases x)
  case (Bget me d bn)
  then obtain v where "bget me s d bn = Inr (v, s')"
    using res by (cases "bget me s d bn") auto
  then show ?thesis
    using bget_inv [OF L] Bget by blast
next
  case (Bread me d bn)
  then obtain v where "bread me s d bn = Inr (v, s')"
    using res by (cases "bread me s d bn") auto
  then show ?thesis
    using bread_inv [OF L] Bread by blast
next
  case (Fill b v)
  then show ?thesis
    using L res by (auto intro: fill_inv fill_idle fill_full)
next
  case (Bwrite me b)
  then show ?thesis
    using L res
    by (auto simp: bwrite_def intro: disk_write_inv disk_write_idle disk_write_full
        split: if_splits)
next
  case (Brelse me b)
  then have "brelse me s b = Inr s'"
    using res by (cases "brelse me s b") auto
  then show ?thesis
    using brelse_inv [OF L] by blast
next
  case (Bpin b)
  then have s': "s' = bpin s b"
    using res by simp
  have "cinv N L s'"
    unfolding s' using L by (rule pin_effect)
  moreover have "idle_ok N L s'" if "idle_ok N L s" "legal s x"
  proof -
    have "rc s b \<noteq> 0"
      using that(2) Bpin by (simp add: rc_def)
    then show ?thesis
      unfolding s' bpin_def using cinvD(1) [OF L] that(1)
      by (intro count_idle [where f = "\<lambda>r. r + 1"])
  qed
  moreover have "full_ok N L s'" if "full_ok N L s" "counted s x"
  proof -
    have "rc s b + 1 \<noteq> 0"
      using that(2) Bpin by (intro word_succ_nonzero) (simp add: rc_def)
    then show ?thesis
      unfolding s' bpin_def using that(1) by (intro count_full [where f = "\<lambda>r. r + 1"])
  qed
  ultimately show ?thesis
    by blast
next
  case (Bunpin b)
  then have s': "s' = bunpin s b"
    using res by simp
  have "cinv N L s'"
    unfolding s' using L by (rule unpin_effect)
  moreover have "idle_ok N L s'" if "idle_ok N L s" "legal s x"
  proof -
    have "rc s b \<noteq> 0"
      using that(2) Bunpin by (simp add: rc_def)
    then show ?thesis
      unfolding s' bunpin_def using cinvD(1) [OF L] that(1)
      by (intro count_idle [where f = "\<lambda>r. r - 1"])
  qed
  moreover have "full_ok N L s'" if "full_ok N L s" "counted s x"
  proof -
    have "rc s b - 1 \<noteq> 0"
      using that(2) Bunpin by (simp add: rc_def)
    then show ?thesis
      unfolding s' bunpin_def using that(1) by (intro count_full [where f = "\<lambda>r. r - 1"])
  qed
  ultimately show ?thesis
    by blast
next
  case (Find d bn)
  then show ?thesis
    using L res by (cases "btable_find s d bn") auto
next
  case (Lru k i)
  then show ?thesis
    using L res by auto
qed

lemma run_inv:
  assumes "cinv N L s" and "run s ops = Inr (evs, s')"
  shows "\<exists>L'. cinv N L' s' \<and> (idle_ok N L s \<and> keeps legal s ops \<longrightarrow> idle_ok N L' s') \<and>
           (full_ok N L s \<and> keeps counted s ops \<longrightarrow> full_ok N L' s')"
  using assms
proof (induction ops arbitrary: s L evs)
  case Nil
  then show ?case by auto
next
  case (Cons x xs)
  obtain e s1 where st: "step s x = Inr (e, s1)"
    using Cons.prems(2) by (cases "step s x") auto
  obtain evs1 where rn: "run s1 xs = Inr (evs1, s')"
    using Cons.prems(2) st by (cases "run s1 xs") auto
  obtain L1 where L1: "cinv N L1 s1" "idle_ok N L s \<and> legal s x \<longrightarrow> idle_ok N L1 s1"
    "full_ok N L s \<and> counted s x \<longrightarrow> full_ok N L1 s1"
    using step_inv [OF Cons.prems(1) st] by blast
  obtain L' where L': "cinv N L' s'"
    "idle_ok N L1 s1 \<and> keeps legal s1 xs \<longrightarrow> idle_ok N L' s'"
    "full_ok N L1 s1 \<and> keeps counted s1 xs \<longrightarrow> full_ok N L' s'"
    using Cons.IH [OF L1(1) rn] by blast
  have "idle_ok N L' s'" if "idle_ok N L s" "keeps legal s (x # xs)"
    using that L1(2) L'(2) st by simp
  moreover have "full_ok N L' s'" if "full_ok N L s" "keeps counted s (x # xs)"
    using that L1(3) L'(3) st by simp
  ultimately show ?case
    using L'(1) by blast
qed

lemma reach_inv:
  assumes "binit N (boot dk) = Inr s0" and "run s0 ops = Inr (evs, s)"
  shows "\<exists>L. cinv N L s \<and> (keeps legal s0 ops \<longrightarrow> idle_ok N L s) \<and>
           (keeps counted s0 ops \<longrightarrow> full_ok N L s)"
proof -
  have "cinv N (deal N) s0" "idle_ok N (deal N) s0" "full_ok N (deal N) s0"
    using binit_cinv [of N dk] assms(1) by auto
  then show ?thesis
    using run_inv [OF _ assms(2), of N "deal N"] by blast
qed

section \<open>Writing, releasing and acquiring again\<close>





lemma last_release_effect:
  assumes inv: "cinv N L s" and b: "b < N" and hold: "holdingsleep me s (Buf b)"
    and one: "rc s (Buf b) = 1" and id: "idt s (Buf b) = (d, bn)"
  shows "\<exists>s' v xs. brelse me s (Buf b) = Inr s' \<and>
     cinv N (L(bucket bn := L (bucket bn) @ [Buf b])) s' \<and>
     L (bucket bn) @ [Buf b] = v # xs \<and>
     btable_find s' d bn = Inr None \<and> rc s' (Buf b) = 0 \<and>
     pv s' (Head (bucket bn)) = Some (Buf b) \<and> nx s' (Buf b) = Some (Head (bucket bn)) \<and>
     bget me' s' d bn = bget_local me' s' d bn \<and>
     pay s' = pay s \<and> disk s' = disk s \<and> disk_reads s' = disk_reads s"
proof -
  let ?i = "bucket bn"
  let ?L = "L(?i := L ?i @ [Buf b])"
  note i = bucket_less [of bn]
  obtain s' where s': "brelse me s (Buf b) = Inr s'" "cinv N ?L s'"
    "btable_find s' d bn = Inr None" "rc s' = (rc s)(Buf b := 0)" "pay s' = pay s"
    "disk s' = disk s" "disk_reads s' = disk_reads s"
    using brelse_last_effect [OF inv b hold one] id by auto
  have r: "ring s' ?i (L ?i @ [Buf b])"
    using lru_okD(1) [OF cinvD(1) [OF s'(2)] i] by simp
  have p: "pv s' (Head ?i) = Some (Buf b)" "nx s' (Buf b) = Some (Head ?i)"
    using ring_prev_head [OF r] ring_next_last [OF r] by simp_all
  obtain v xs where vx: "L ?i @ [Buf b] = v # xs"
    by (cases "L ?i @ [Buf b]") auto
  then have "?L ?i \<noteq> []"
    by simp
  then have "next (lrus s' ?i) \<noteq> Some (Head ?i)"
    using lru_empty_test [OF cinvD(1) [OF s'(2)] i] by blast
  then have "bget me' s' d bn = bget_local me' s' d bn"
    using s'(3) by (simp add: bget_def)
  then show ?thesis
    using s' p vx by simp
qed

lemma boot_run_reach:
  assumes "boot_run N ops = Inr (evs, s)"
  shows "binit N (boot disk0) = Inr (state_of (boot_run N []))"
    and "run (state_of (boot_run N [])) ops = Inr (evs, s)"
    and "state_of (boot_run N ops) = s"
  using assms by (cases "binit N (boot disk0)"; simp add: boot_run_def state_of_def)+

section \<open>Runs from \<open>binit\<close>, concretely\<close>





section \<open>The two-state invariant\<close>










section \<open>The victim of an eviction\<close>

text \<open>
  C5, as the claim states it: no operation sequence leads \<open>bget\<close> to reassign a buffer
  whose reference count is greater than 0. \<open>bpin\<close> of the idle buffer 0 leaves it on
  shard 0's list with count 1, \<open>bunpin\<close> of it with count \<open>2^32 - 1\<close>; in both runs the
  lookup of block (1, 0) then misses, and \<open>bget\<close> takes buffer 0 from the list and gives it
  the new identity.
\<close>

theorem pinned_idle_buffer_is_victim:
  "observe 16 [Bpin (Buf 0)] [Buf 0] = Inr ([Done], [(0, 0, 1, False, [])], 0) \<and>
   observe 16 [Bpin (Buf 0), Find 1 0, Bget 7 1 0] [Buf 0]
     = Inr ([Done, Found None, Ret (Buf 0)], [(1, 0, 1, False, [])], 0) \<and>
   observe 16 [Bunpin (Buf 0)] [Buf 0] = Inr ([Done], [(0, 0, 4294967295, False, [])], 0) \<and>
   observe 16 [Bunpin (Buf 0), Find 1 0, Bget 7 1 0] [Buf 0]
     = Inr ([Done, Found None, Ret (Buf 0)], [(1, 0, 1, False, [])], 0)"
  by (simp add: cache_eval cong: then_do_weak_cong let_weak_cong)

text \<open>
  C5, amended: from \<open>binit\<close>, in every run that keeps \<open>legal\<close> (\<open>bpin\<close> and \<open>bunpin\<close>
  applied only to buffers whose reference count is not 0): whenever the chain lookup
  misses and \<open>bget\<close> returns a buffer, the victim of its local or of its stealing path,
  the reference count of that buffer was 0 when \<open>bget\<close> was called.
\<close>

theorem victim_is_unreferenced:
  assumes "binit N (boot dk) = Inr s0" and "keeps legal s0 ops" and "run s0 ops = Inr (evs, s)"
    and "btable_find s d bn = Inr None" and "bget me s d bn = Inr (v, s')"
  shows "refcnt (obj s v) = 0"
proof -
  obtain L where L: "cinv N L s" "idle_ok N L s"
    using reach_inv [OF assms(1,3)] assms(2) by blast
  obtain j xs where j: "j < NBUCKETS" "L j = v # xs"
    using bget_miss_effect [OF L(1) assms(4,5)] by blast
  then have m: "v \<in> members L"
    unfolding members_iff by (metis list.set_intros(1))
  then obtain b where "b < N" "v = Buf b"
    using members_pool [OF cinvD(1) [OF L(1)]] by blast
  then show ?thesis
    using L(2) m unfolding idle_ok_def by (auto simp: rc_def)
qed

lemma w5_run:
  "\<exists>s. boot_run 16 [Bget 7 1 0, Bget 7 1 13] = Inr ([Ret (Buf 0), Ret (Buf 13)], s)"
  by (simp add: cache_eval cong: then_do_weak_cong let_weak_cong)

lemma w5_legal:
  "keeps legal (state_of (boot_run 16 [])) [Bget 7 1 0, Bget 7 1 13]"
  by (simp add: cache_eval cong: then_do_weak_cong let_weak_cong)

lemma w5_miss:
  "btable_find (state_of (boot_run 16 [Bget 7 1 0, Bget 7 1 13])) 1 26 = Inr None"
  by (simp add: cache_eval cong: then_do_weak_cong let_weak_cong)

lemma w5_steal:
  "\<exists>s'. bget 7 (state_of (boot_run 16 [Bget 7 1 0, Bget 7 1 13])) 1 26 = Inr (Buf 1, s')"
  by (simp add: cache_eval cong: then_do_weak_cong let_weak_cong)

theorem victim_is_unreferenced_witness:
  "binit 16 (boot disk0) = Inr (state_of (boot_run 16 [])) \<and>
   keeps legal (state_of (boot_run 16 [])) [Bget 7 1 0, Bget 7 1 13] \<and>
   run (state_of (boot_run 16 [])) [Bget 7 1 0, Bget 7 1 13]
     = Inr ([Ret (Buf 0), Ret (Buf 13)], state_of (boot_run 16 [Bget 7 1 0, Bget 7 1 13])) \<and>
   btable_find (state_of (boot_run 16 [Bget 7 1 0, Bget 7 1 13])) 1 26 = Inr None \<and>
   (\<exists>s'. bget 7 (state_of (boot_run 16 [Bget 7 1 0, Bget 7 1 13])) 1 26 = Inr (Buf 1, s')) \<and>
   refcnt (obj (state_of (boot_run 16 [Bget 7 1 0, Bget 7 1 13])) (Buf 1)) = 0"
proof -
  obtain s where s: "boot_run 16 [Bget 7 1 0, Bget 7 1 13] = Inr ([Ret (Buf 0), Ret (Buf 13)], s)"
    using w5_run by blast
  note r = boot_run_reach [OF s]
  obtain s' where s': "bget 7 s 1 26 = Inr (Buf 1, s')"
    using w5_steal r(3) by auto
  have m: "btable_find s 1 26 = Inr None"
    using w5_miss r(3) by simp
  show ?thesis
    using victim_is_unreferenced [OF r(1) w5_legal r(2) m s'] r w5_legal m s' by simp
qed

section \<open>Releases and the reference count\<close>



lemma w6_run: "\<exists>s. boot_run 16 [Bget 7 1 5] = Inr ([Ret (Buf 5)], s)"
  by (simp add: cache_eval cong: then_do_weak_cong let_weak_cong)


lemma w6_held:
  "holdingsleep 7 (state_of (boot_run 16 [Bget 7 1 5])) (Buf 5)"
  "\<not> holdingsleep 8 (state_of (boot_run 16 [Bget 7 1 5])) (Buf 5)"
  "refcnt (obj (state_of (boot_run 16 [Bget 7 1 5])) (Buf 5)) = 1"
  "dev (obj (state_of (boot_run 16 [Bget 7 1 5])) (Buf 5)) = 1"
  "blockno (obj (state_of (boot_run 16 [Bget 7 1 5])) (Buf 5)) = 5"
  by (simp_all add: cache_eval cong: then_do_weak_cong let_weak_cong)


section \<open>The last release takes the buffer off its chain\<close>

text \<open>
  C2. In every state reached from \<open>binit\<close> by cache operations, let the holder of a
  buffer whose reference count is 1 release it. \<open>brelse\<close> returns with the count at 0, the
  buffer at the MRU end of the list of shard \<open>blockno mod 13\<close> (it is the \<open>prev\<close> of the
  head, and the head is its \<open>next\<close>), and no buffer of this identity in the chain: the
  lookup finds nothing. The next \<open>bget\<close> of the identity, by any process, therefore takes
  the local-victim path and returns a buffer installed under the identity with count 1
  and \<open>valid\<close> reset.
\<close>

theorem last_release_unchains:
  assumes "binit N (boot dk) = Inr s0" and "run s0 ops = Inr (evs, s)"
    and hold: "holdingsleep me s a" and one: "refcnt (obj s a) = 1"
    and id: "dev (obj s a) = d" "blockno (obj s a) = bn"
  shows "\<exists>s'. brelse me s a = Inr s' \<and> refcnt (obj s' a) = 0 \<and>
           btable_find s' d bn = Inr None \<and>
           prev (lrus s' (bucket bn)) = Some a \<and> next (obj s' a) = Some (Head (bucket bn)) \<and>
           (\<exists>v s''. bget me' s' d bn = Inr (v, s'') \<and> bget_local me' s' d bn = Inr (v, s'') \<and>
              \<not> valid (obj s'' v) \<and> refcnt (obj s'' v) = 1 \<and>
              dev (obj s'' v) = d \<and> blockno (obj s'' v) = bn)"
proof -
  obtain L where L: "cinv N L s"
    using reach_inv [OF assms(1,2)] by blast
  obtain b where b: "b < N" "a = Buf b"
    using held_out(2) [OF L hold] by blast
  note hb = hold [unfolded b(2)]
  have "rc s (Buf b) = 1" "idt s (Buf b) = (d, bn)"
    using one id b(2) by (simp_all add: rc_def idt_def)
  then obtain s' v xs where s': "brelse me s (Buf b) = Inr s'"
    "cinv N (L(bucket bn := L (bucket bn) @ [Buf b])) s'"
    "L (bucket bn) @ [Buf b] = v # xs" "btable_find s' d bn = Inr None" "rc s' (Buf b) = 0"
    "pv s' (Head (bucket bn)) = Some (Buf b)" "nx s' (Buf b) = Some (Head (bucket bn))"
    "bget me' s' d bn = bget_local me' s' d bn"
    using last_release_effect [OF L b(1) hb, of d bn me'] by blast
  have "(L(bucket bn := L (bucket bn) @ [Buf b])) (bucket bn) = v # xs"
    using s'(3) by simp
  then obtain s'' where s'': "bget_local me' s' d bn = Inr (v, s'')"
    "idt s'' = (idt s')(v := (d, bn))" "rc s'' = (rc s')(v := 1)"
    "pay s'' = (pay s')(v := (False, snd (pay s' v)))"
    using bget_local_effect [OF s'(2,4), of v xs me'] by blast
  have "idt s'' v = (d, bn)" "rc s'' v = 1" "pay s'' v = (False, snd (pay s' v))"
    using s''(2,3,4) by simp_all
  then have "\<not> valid (obj s'' v)" "refcnt (obj s'' v) = 1" "dev (obj s'' v) = d"
    "blockno (obj s'' v) = bn"
    by (simp_all add: proj_defs)
  then show ?thesis
    using s' s''(1) b(2) by (simp add: proj_defs obj_Head)
qed

theorem last_release_unchains_witness:
  "binit 16 (boot disk0) = Inr (state_of (boot_run 16 [])) \<and>
   run (state_of (boot_run 16 [])) [Bget 7 1 5]
     = Inr ([Ret (Buf 5)], state_of (boot_run 16 [Bget 7 1 5])) \<and>
   holdingsleep 7 (state_of (boot_run 16 [Bget 7 1 5])) (Buf 5) \<and>
   refcnt (obj (state_of (boot_run 16 [Bget 7 1 5])) (Buf 5)) = 1 \<and>
   dev (obj (state_of (boot_run 16 [Bget 7 1 5])) (Buf 5)) = 1 \<and>
   blockno (obj (state_of (boot_run 16 [Bget 7 1 5])) (Buf 5)) = 5 \<and>
   (\<exists>s'. brelse 7 (state_of (boot_run 16 [Bget 7 1 5])) (Buf 5) = Inr s' \<and>
      refcnt (obj s' (Buf 5)) = 0 \<and> btable_find s' 1 5 = Inr None \<and>
      prev (lrus s' (bucket 5)) = Some (Buf 5) \<and>
      next (obj s' (Buf 5)) = Some (Head (bucket 5)) \<and>
      (\<exists>v s''. bget 8 s' 1 5 = Inr (v, s'') \<and> bget_local 8 s' 1 5 = Inr (v, s'') \<and>
         \<not> valid (obj s'' v) \<and> refcnt (obj s'' v) = 1 \<and>
         dev (obj s'' v) = 1 \<and> blockno (obj s'' v) = 5))"
proof -
  obtain s where s: "boot_run 16 [Bget 7 1 5] = Inr ([Ret (Buf 5)], s)"
    using w6_run by blast
  note r = boot_run_reach [OF s]
  have h: "holdingsleep 7 s (Buf 5)" "refcnt (obj s (Buf 5)) = 1" "dev (obj s (Buf 5)) = 1"
    "blockno (obj s (Buf 5)) = 5"
    using w6_held(1,3,4,5) r(3) by simp_all
  show ?thesis
    using last_release_unchains [OF r(1,2) h, of 8] r h
    by simp
qed

section \<open>Write, release, read again\<close>







end
